theory Spec2Isabelle
  imports Main "HOL-Library.AList"
begin

section \<open>Characters and strings\<close>

text \<open>
  A Python \<open>str\<close> is a sequence of code points. The model works with the code points
  0 to 255 (Latin-1), one \<^typ>\<open>char\<close> per code point, so \<open>length\<close> is Python's \<open>len\<close>:
  the accepted alphabet and both boundary markers lie in that range. The six letters
  with diacritics in the source's character classes are the code points \<open>0xE4\<close>, \<open>0xF6\<close>,
  \<open>0xE5\<close> (lowercase) and \<open>0xC4\<close>, \<open>0xD6\<close>, \<open>0xC5\<close> (uppercase); the classes are written
  below as \<open>[a-zA-Z+6]\<close>.
\<close>

definition code :: "char \<Rightarrow> nat" where
  "code c = of_char c"

definition is_space :: "char \<Rightarrow> bool" where
  \<comment> \<open>\<open>str.isspace\<close>, which is also what \<open>str.strip()\<close> removes and what \<open>\s\<close> matches:
     TAB to CR, FS to US, space, NEL and NBSP.\<close>
  "is_space c \<longleftrightarrow>
     (9 \<le> code c \<and> code c \<le> 13) \<or> (28 \<le> code c \<and> code c \<le> 32) \<or> code c = 133 \<or> code c = 160"

definition is_letter :: "char \<Rightarrow> bool" where
  \<comment> \<open>the character class \<open>[a-zA-Z+6]\<close>\<close>
  "is_letter c \<longleftrightarrow>
     (97 \<le> code c \<and> code c \<le> 122) \<or> (65 \<le> code c \<and> code c \<le> 90) \<or>
     code c = 228 \<or> code c = 246 \<or> code c = 229 \<or>
     code c = 196 \<or> code c = 214 \<or> code c = 197"

definition is_name_char :: "char \<Rightarrow> bool" where
  \<comment> \<open>the character class \<open>[a-zA-Z+6\s\-\']\<close>\<close>
  "is_name_char c \<longleftrightarrow> is_letter c \<or> is_space c \<or> c = CHR ''-'' \<or> c = CHR 0x27"

definition is_upper :: "char \<Rightarrow> bool" where
  \<comment> \<open>the code points with a lowercase mapping: \<open>A\<close> to \<open>Z\<close>, \<open>0xC0\<close> to \<open>0xDE\<close> without \<open>0xD7\<close>\<close>
  "is_upper c \<longleftrightarrow>
     (65 \<le> code c \<and> code c \<le> 90) \<or> (192 \<le> code c \<and> code c \<le> 222 \<and> code c \<noteq> 215)"

definition is_lower :: "char \<Rightarrow> bool" where
  \<comment> \<open>the code points whose titlecase mapping is 32 below: \<open>a\<close> to \<open>z\<close>, \<open>0xE0\<close> to \<open>0xFE\<close>
     without \<open>0xF7\<close>\<close>
  "is_lower c \<longleftrightarrow>
     (97 \<le> code c \<and> code c \<le> 122) \<or> (224 \<le> code c \<and> code c \<le> 254 \<and> code c \<noteq> 247)"

definition is_cased :: "char \<Rightarrow> bool" where
  \<comment> \<open>Unicode property Cased: the letters above and \<open>0xAA\<close>, \<open>0xB5\<close>, \<open>0xBA\<close>, \<open>0xDF\<close>, \<open>0xFF\<close>\<close>
  "is_cased c \<longleftrightarrow>
     is_upper c \<or> is_lower c \<or> code c = 170 \<or> code c = 181 \<or> code c = 186 \<or>
     code c = 223 \<or> code c = 255"

definition lower_char :: "char \<Rightarrow> char" where
  "lower_char c = (if is_upper c then char_of (code c + 32) else c)"

definition title_char :: "char \<Rightarrow> char" where
  \<comment> \<open>Python agrees on every code point but \<open>0xB5\<close>, \<open>0xDF\<close> and \<open>0xFF\<close>, whose titlecase
     forms are not single Latin-1 code points; none of the three passes
     \<open>_is_valid_name\<close> or \<open>_is_valid_name_part\<close>, and the model leaves them as they are.\<close>
  "title_char c = (if is_lower c then char_of (code c - 32) else c)"

definition lower :: "string \<Rightarrow> string" where
  \<comment> \<open>\<open>str.lower()\<close>\<close>
  "lower s = map lower_char s"

primrec title_from :: "bool \<Rightarrow> string \<Rightarrow> string" where
  \<comment> \<open>the loop of \<open>str.title()\<close>: a character that follows a cased one is lowercased, any
     other is titlecased\<close>
  "title_from prev [] = []"
| "title_from prev (c # cs) =
     (if prev then lower_char c else title_char c) # title_from (is_cased c) cs"

definition title :: "string \<Rightarrow> string" where
  \<comment> \<open>\<open>str.title()\<close>\<close>
  "title s = title_from False s"

definition strip :: "string \<Rightarrow> string" where
  \<comment> \<open>\<open>str.strip()\<close>\<close>
  "strip s = rev (dropWhile is_space (rev (dropWhile is_space s)))"

primrec sub_spaces :: "bool \<Rightarrow> string \<Rightarrow> string" where
  \<comment> \<open>\<open>re.sub(r'\s+', ' ', s)\<close>: every maximal run of whitespace becomes one space; the flag
     says that the previous character was whitespace\<close>
  "sub_spaces prev [] = []"
| "sub_spaces prev (c # cs) =
     (if is_space c then (if prev then sub_spaces True cs else CHR '' '' # sub_spaces True cs)
      else c # sub_spaces False cs)"

definition startswith :: "string \<Rightarrow> string \<Rightarrow> bool" where
  \<comment> \<open>\<open>s.startswith(p)\<close>\<close>
  "startswith s p \<longleftrightarrow> take (length p) s = p"

definition endswith :: "string \<Rightarrow> string \<Rightarrow> bool" where
  \<comment> \<open>\<open>s.endswith(p)\<close>\<close>
  "endswith s p \<longleftrightarrow> length p \<le> length s \<and> drop (length s - length p) s = p"

section \<open>Name validation and normalisation\<close>

definition is_valid_name_part :: "string \<Rightarrow> bool" where
  \<comment> \<open>\<open>re.match(r'^[a-zA-Z+6]+$', text.strip())\<close>; the \<open>$\<close> before a final newline
     plays no part, a newline is not in the class\<close>
  "is_valid_name_part text \<longleftrightarrow> strip text \<noteq> [] \<and> list_all is_letter (strip text)"

definition is_valid_name :: "string \<Rightarrow> bool" where
  \<comment> \<open>\<open>re.match(r'^[a-zA-Z+6\s\-\']+$', name.strip())\<close>; the stripped string has
     no final newline for \<open>$\<close> to stop before\<close>
  "is_valid_name name \<longleftrightarrow> strip name \<noteq> [] \<and> list_all is_name_char (strip name)"

definition clean_name :: "string \<Rightarrow> string" where
  "clean_name name = title (sub_spaces False (strip name))"

definition capitalize_name :: "string \<Rightarrow> string" where
  "capitalize_name name = title name"

section \<open>The model and training\<close>

text \<open>
  \<open>self.chains\<close> is a \<open>defaultdict(Counter)\<close>: a dictionary from contexts to counters, a
  counter a dictionary from characters to integer weights. Both keep insertion order,
  which \<open>random.choices\<close> sees, so both are association lists with distinct keys that
  grow at the end (\<^const>\<open>AList.update\<close>). The order is a natural number: the data
  model asks for an order of at least 1, and the code also runs with order 0, where
  every context of training is the empty string.
\<close>

type_synonym counter = "(char \<times> int) list"
type_synonym table = "(string \<times> counter) list"

record model =
  order :: nat
  chains :: table
  names :: "string list"

datatype error =
    ArityMismatch       \<comment> \<open>\<open>ValueError("Names and weights lists must have the same length")\<close>\<close>
  | ModelNotTrained     \<comment> \<open>\<open>ValueError("Model not trained yet. Call train() first.")\<close>\<close>
  | InvalidStart        \<comment> \<open>\<open>ValueError("Invalid starting string: ...")\<close>\<close>
  | InvalidEnd          \<comment> \<open>\<open>ValueError("Invalid ending string: ...")\<close>\<close>
  | ChoicesError        \<comment> \<open>\<open>ValueError("Total of weights must be greater than zero")\<close>,
                            raised by \<open>random.choices\<close>\<close>
  | OverflowError       \<comment> \<open>\<open>OverflowError("int too large to convert to float")\<close>,
                            raised in \<open>random.choices\<close>\<close>

definition init :: "nat \<Rightarrow> model" where
  \<comment> \<open>\<open>__init__\<close>\<close>
  "init k = \<lparr>order = k, chains = [], names = []\<rparr>"

definition count_of :: "counter \<Rightarrow> char \<Rightarrow> int" where
  \<comment> \<open>\<open>Counter.__getitem__\<close>: a missing key reads as 0 and is not inserted\<close>
  "count_of cnt c = (case map_of cnt c of None \<Rightarrow> 0 | Some w \<Rightarrow> w)"

definition counter_of :: "table \<Rightarrow> string \<Rightarrow> counter" where
  \<comment> \<open>the value \<open>self.chains[context]\<close> evaluates to; a missing key gives an empty counter\<close>
  "counter_of ch ctx = (case map_of ch ctx of None \<Rightarrow> [] | Some cnt \<Rightarrow> cnt)"

definition getitem :: "table \<Rightarrow> string \<Rightarrow> table" where
  \<comment> \<open>the table after evaluating \<open>self.chains[context]\<close>: \<open>defaultdict.__missing__\<close>
     inserts the empty counter under a missing key\<close>
  "getitem ch ctx = (case map_of ch ctx of None \<Rightarrow> ch @ [(ctx, [])] | Some cnt \<Rightarrow> ch)"

definition add_transition :: "int \<Rightarrow> string \<Rightarrow> char \<Rightarrow> table \<Rightarrow> table" where
  \<comment> \<open>\<open>self.chains[context][next_char] += weight\<close>\<close>
  "add_transition w ctx c ch =
     (let cnt = counter_of ch ctx
      in AList.update ctx (AList.update c (count_of cnt c + w) cnt) (getitem ch ctx))"

definition padded_name :: "nat \<Rightarrow> string \<Rightarrow> string" where
  \<comment> \<open>\<open>'^' * self.order + clean_name.lower() + '$'\<close>\<close>
  "padded_name k clean = replicate k CHR ''^'' @ lower clean @ ''$''"

definition add_window :: "nat \<Rightarrow> int \<Rightarrow> string \<Rightarrow> nat \<Rightarrow> table \<Rightarrow> table" where
  \<comment> \<open>one round of the inner loop: \<open>context = padded_name[i:i + order]\<close>,
     \<open>next_char = padded_name[i + order]\<close>, with \<open>i + order < len(padded_name)\<close>\<close>
  "add_window k w padded i ch = add_transition w (take k (drop i padded)) (padded ! (i + k)) ch"

definition add_windows :: "nat \<Rightarrow> int \<Rightarrow> string \<Rightarrow> table \<Rightarrow> table" where
  \<comment> \<open>\<open>for i in range(len(padded_name) - self.order)\<close>\<close>
  "add_windows k w padded ch = fold (add_window k w padded) [0 ..< length padded - k] ch"

definition train_example :: "string \<times> int \<Rightarrow> model \<Rightarrow> model" where
  \<comment> \<open>the body of the loop over \<open>zip(names, weights)\<close>\<close>
  "train_example ex m =
     (if is_valid_name (fst ex) then
        (let clean = clean_name (fst ex)
         in m\<lparr>names := names m @ [clean],
              chains := add_windows (order m) (snd ex) (padded_name (order m) clean) (chains m)\<rparr>)
      else m)"

definition default_weights :: "string list \<Rightarrow> int list option \<Rightarrow> int list" where
  \<comment> \<open>\<open>if weights is None: weights = [1] * len(names)\<close>\<close>
  "default_weights ns weights =
     (case weights of None \<Rightarrow> replicate (length ns) 1 | Some ws \<Rightarrow> ws)"

definition train :: "model \<Rightarrow> string list \<Rightarrow> int list option \<Rightarrow> error + model" where
  \<comment> \<open>\<open>self.names\<close> is reset, \<open>self.chains\<close> is not\<close>
  "train m ns weights =
     (let ws = default_weights ns weights
      in if length ns \<noteq> length ws then Inl ArityMismatch
         else Inr (fold train_example (zip ns ws) (m\<lparr>names := []\<rparr>)))"

section \<open>Generation\<close>

text \<open>
  \<open>random.choices(chars, weights=weights)[0]\<close> accumulates the weights, converts their
  total to a float (\<open>OverflowError\<close> for an integer that rounds to \<open>2 ^ 1024\<close> or beyond,
  the least of which is \<open>2 ^ 1024 - 2 ^ 970\<close>), raises \<open>ValueError\<close> for a total that is not
  positive, draws \<open>x = random() * total\<close> and returns the item at
  \<open>bisect(cum_weights, x, 0, n - 1)\<close>. The cumulative weights are integers, and Python
  compares a float with an integer exactly, so only the integer part of \<open>x\<close> decides:
  a draw is a natural number \<open>r\<close>, read as \<open>r mod total\<close>. The random source is a sequence
  \<open>rand\<close> of draws and a position in it; nothing is drawn when \<open>choices\<close> raises. The one
  idealisation is that the product \<open>random() * total\<close> is exact, which floats are for
  totals up to \<open>2 ^ 53\<close>.
\<close>

primrec accumulate :: "int \<Rightarrow> int list \<Rightarrow> int list" where
  \<comment> \<open>\<open>itertools.accumulate\<close>: the running totals, from the total so far\<close>
  "accumulate acc [] = []"
| "accumulate acc (w # ws) = (acc + w) # accumulate (acc + w) ws"

function bisect :: "int list \<Rightarrow> int \<Rightarrow> nat \<Rightarrow> nat \<Rightarrow> nat" where
  \<comment> \<open>\<open>bisect.bisect_right(a, x, lo, hi)\<close>, a binary search whatever the order of \<open>a\<close>;
     \<open>choices\<close> calls it with \<open>hi < len(a)\<close>\<close>
  "bisect a x lo hi =
     (if lo < hi then
        (let mid = (lo + hi) div 2
         in if x < a ! mid then bisect a x lo mid else bisect a x (Suc mid) hi)
      else lo)"
  by pat_completeness auto
termination
  by (relation "measure (\<lambda>(a, x, lo, hi). hi - lo)") auto

declare bisect.simps [simp del]

definition float_limit :: int where
  \<comment> \<open>the least integer that \<open>float\<close> cannot hold\<close>
  "float_limit = 2 ^ 1024 - 2 ^ 970"

definition choices :: "counter \<Rightarrow> nat \<Rightarrow> error + char" where
  \<comment> \<open>\<open>generate\<close> draws from counters that are not empty only; \<open>last (0 # [])\<close> stands for
     the total of no weights\<close>
  "choices cnt r =
     (let cum_weights = accumulate 0 (map snd cnt);
          total = last (0 # cum_weights)
      in if float_limit \<le> \<bar>total\<bar> then Inl OverflowError
         else if total \<le> 0 then Inl ChoicesError
         else Inr (fst (cnt ! bisect cum_weights (int r mod total) 0 (length cnt - 1))))"

definition has_key :: "table \<Rightarrow> string \<Rightarrow> bool" where
  \<comment> \<open>\<open>context in self.chains\<close>\<close>
  "has_key ch ctx \<longleftrightarrow> map_of ch ctx \<noteq> None"

primrec some_suffix_key :: "table \<Rightarrow> string \<Rightarrow> bool" where
  \<comment> \<open>is the string, or one of its shorter non-empty suffixes, a key?\<close>
  "some_suffix_key ch [] \<longleftrightarrow> False"
| "some_suffix_key ch (c # cs) \<longleftrightarrow> has_key ch (c # cs) \<or> some_suffix_key ch cs"

definition try_alternative_context :: "table \<Rightarrow> string \<Rightarrow> bool" where
  \<comment> \<open>\<open>for i in range(1, len(context))\<close>: \<open>context[1:]\<close>, \<open>context[2:]\<close>, down to the last
     character. Only the answer is returned, not the context found.\<close>
  "try_alternative_context ch ctx \<longleftrightarrow> some_suffix_key ch (tl ctx)"

definition seed :: "nat \<Rightarrow> string \<Rightarrow> string \<times> string" where
  \<comment> \<open>the initial \<open>(name, context)\<close>; \<open>start_with[-self.order:]\<close> is the whole string when
     the order is 0, since \<open>s[-0:]\<close> is \<open>s[0:]\<close>\<close>
  "seed k start_with =
     (if start_with \<noteq> [] then
        (start_with,
         if k \<le> length start_with then
           (if k = 0 then start_with else drop (length start_with - k) start_with)
         else replicate (k - length start_with) CHR ''^'' @ start_with)
      else ([], replicate k CHR ''^''))"

datatype exit =
    Finished string   \<comment> \<open>the loop ended, by \<open>break\<close> or by exhausting its range, with this name\<close>
  | Retry             \<comment> \<open>\<open>return self.generate(...)\<close> from inside the loop\<close>
  | Raised error      \<comment> \<open>an exception left the loop\<close>

definition step ::
  "(nat \<Rightarrow> nat) \<Rightarrow> int \<Rightarrow> string \<Rightarrow> model \<Rightarrow> string \<Rightarrow> string \<Rightarrow> nat
     \<Rightarrow> (exit + string \<times> string) \<times> model \<times> nat" where
  \<comment> \<open>one round of the loop in \<open>generate\<close>, from \<open>(context, name)\<close>: either the loop is left
     (\<open>Inl\<close>) or it goes on with a new \<open>(context, name)\<close> (\<open>Inr\<close>); with the model, whose
     table the lookup \<open>self.chains[context]\<close> may extend, and the position in the random
     source\<close>
  "step rand min_length start_with m ctx name i =
     (if \<not> has_key (chains m) ctx \<and> \<not> try_alternative_context (chains m) ctx then
        (Inl (Finished name), m, i)
      else
        (let possible_chars = counter_of (chains m) ctx;
             m' = m\<lparr>chains := getitem (chains m) ctx\<rparr>
         in if possible_chars = [] then (Inl (Finished name), m', i)
            else (case choices possible_chars (rand i) of
                    Inl e \<Rightarrow> (Inl (Raised e), m', i)
                  | Inr next_char \<Rightarrow>
                      if next_char = CHR ''$'' then
                        (if min_length \<le> int (length name) then (Inl (Finished name), m', Suc i)
                         else if start_with \<noteq> [] then (Inl Retry, m', Suc i)
                         else (Inr (replicate (order m) CHR ''^'', []), m', Suc i))
                      else (Inr (tl ctx @ [next_char], name @ [next_char]), m', Suc i))))"

fun loop ::
  "(nat \<Rightarrow> nat) \<Rightarrow> int \<Rightarrow> string \<Rightarrow> nat \<Rightarrow> model \<Rightarrow> string \<Rightarrow> string \<Rightarrow> nat
     \<Rightarrow> exit \<times> model \<times> nat" where
  \<comment> \<open>\<open>for _ in range(n)\<close> around \<open>step\<close>\<close>
  "loop rand min_length start_with 0 m ctx name i = (Finished name, m, i)"
| "loop rand min_length start_with (Suc n) m ctx name i =
     (case step rand min_length start_with m ctx name i of
        (Inl ex, m', i') \<Rightarrow> (ex, m', i')
      | (Inr (ctx', name'), m', i') \<Rightarrow> loop rand min_length start_with n m' ctx' name' i')"

definition run_loop ::
  "(nat \<Rightarrow> nat) \<Rightarrow> model \<Rightarrow> int \<Rightarrow> int \<Rightarrow> string \<Rightarrow> nat \<Rightarrow> exit \<times> model \<times> nat" where
  \<comment> \<open>seeding, then \<open>for _ in range(max_length - len(name))\<close>\<close>
  "run_loop rand m max_length min_length start_with i =
     loop rand min_length start_with
       (nat (max_length - int (length (fst (seed (order m) start_with)))))
       m (snd (seed (order m) start_with)) (fst (seed (order m) start_with)) i"

text \<open>
  \<open>generate\<close> calls itself without bound, so it is a partial function: \<open>None\<close> is a call
  that never returns (in Python the recursion ends when the interpreter runs out of
  stack, which is not modelled). A call that returns gives its outcome (the exception
  raised or the string returned), the model as the call left it, and the position in the
  random source. The recursive calls pass on \<open>start_with\<close> and \<open>end_with\<close> as the call has
  rebound them, lowercased and stripped.
\<close>

partial_function (option) generate ::
  "(nat \<Rightarrow> nat) \<Rightarrow> model \<Rightarrow> int \<Rightarrow> int \<Rightarrow> string \<Rightarrow> string \<Rightarrow> nat
     \<Rightarrow> ((error + string) \<times> model \<times> nat) option" where
  "generate rand m max_length min_length start_with0 end_with0 i =
     (if chains m = [] then Some (Inl ModelNotTrained, m, i)
      else if strip (lower start_with0) \<noteq> [] \<and> \<not> is_valid_name_part (strip (lower start_with0))
      then Some (Inl InvalidStart, m, i)
      else if strip (lower end_with0) \<noteq> [] \<and> \<not> is_valid_name_part (strip (lower end_with0))
      then Some (Inl InvalidEnd, m, i)
      else
        (case run_loop rand m max_length min_length (strip (lower start_with0)) i of
           (Raised e, m1, i1) \<Rightarrow> Some (Inl e, m1, i1)
         | (Retry, m1, i1) \<Rightarrow>
             generate rand m1 max_length min_length (strip (lower start_with0))
               (strip (lower end_with0)) i1
         | (Finished name, m1, i1) \<Rightarrow>
             Option.bind
               (if name \<noteq> [] then Some (Inr (capitalize_name name), m1, i1)
                else generate rand m1 max_length min_length (strip (lower start_with0))
                       (strip (lower end_with0)) i1)
               (\<lambda>(res, m2, i2).
                  case res of
                    Inl e \<Rightarrow> Some (Inl e, m2, i2)
                  | Inr result \<Rightarrow>
                      if result \<noteq> [] \<and> strip (lower end_with0) \<noteq> [] \<and>
                         \<not> endswith (lower result) (strip (lower end_with0))
                      then generate rand m2 max_length min_length (strip (lower start_with0))
                             (strip (lower end_with0)) i2
                      else Some (Inr result, m2, i2))))"

declare generate.simps [code]

section \<open>Properties of tables and arguments\<close>

definition weight_of :: "table \<Rightarrow> string \<Rightarrow> char \<Rightarrow> int" where
  \<comment> \<open>the weight the table holds for a context and a next character, 0 if it holds none\<close>
  "weight_of ch ctx c = count_of (counter_of ch ctx) c"

definition is_window :: "nat \<Rightarrow> string \<Rightarrow> string \<Rightarrow> char \<Rightarrow> nat \<Rightarrow> bool" where
  \<comment> \<open>the window of length \<open>k + 1\<close> at position \<open>i\<close> of the padded form is the context
     followed by the character\<close>
  "is_window k padded ctx c i \<longleftrightarrow> take k (drop i padded) = ctx \<and> padded ! (i + k) = c"

definition window_count :: "nat \<Rightarrow> string \<Rightarrow> string \<Rightarrow> char \<Rightarrow> nat" where
  \<comment> \<open>how many times the window occurs in the padded form\<close>
  "window_count k padded ctx c =
     length (filter (is_window k padded ctx c) [0 ..< length padded - k])"

definition contribution :: "nat \<Rightarrow> string \<Rightarrow> char \<Rightarrow> string \<times> int \<Rightarrow> int" where
  \<comment> \<open>what one example adds to the weight of a window: its weight once for every
     occurrence of the window in its padded form, nothing if its name is not valid\<close>
  "contribution k ctx c ex =
     (if is_valid_name (fst ex)
      then snd ex * int (window_count k (padded_name k (clean_name (fst ex))) ctx c)
      else 0)"

definition expected_weight :: "nat \<Rightarrow> (string \<times> int) list \<Rightarrow> string \<Rightarrow> char \<Rightarrow> int" where
  "expected_weight k exs ctx c = sum_list (map (contribution k ctx c) exs)"

definition claimed_weight :: "nat \<Rightarrow> (string \<times> int) list \<Rightarrow> string \<Rightarrow> char \<Rightarrow> int" where
  \<comment> \<open>the specification's words: the sum of the weights of the training examples whose
     padded form contains the window\<close>
  "claimed_weight k exs ctx c =
     sum_list (map snd (filter
       (\<lambda>ex. is_valid_name (fst ex) \<and>
             0 < window_count k (padded_name k (clean_name (fst ex))) ctx c) exs))"

definition keys_ok :: "nat \<Rightarrow> table \<Rightarrow> bool" where
  \<comment> \<open>every context key has length \<open>k\<close>\<close>
  "keys_ok k ch \<longleftrightarrow> list_all (\<lambda>p. length (fst p) = k) ch"

definition pos_weights :: "table \<Rightarrow> bool" where
  \<comment> \<open>every stored weight is positive\<close>
  "pos_weights ch \<longleftrightarrow> list_all (\<lambda>p. list_all (\<lambda>q. 0 < snd q) (snd p)) ch"

definition distinct_keys :: "table \<Rightarrow> bool" where
  \<comment> \<open>the association lists are dictionaries: no key occurs twice\<close>
  "distinct_keys ch \<longleftrightarrow>
     distinct (map fst ch) \<and> list_all (\<lambda>p. distinct (map fst (snd p))) ch"

definition no_start_target :: "table \<Rightarrow> bool" where
  \<comment> \<open>the start marker is not a transition target\<close>
  "no_start_target ch \<longleftrightarrow> list_all (\<lambda>p. list_all (\<lambda>q. fst q \<noteq> CHR ''^'') (snd p)) ch"

definition letters_only :: "string \<Rightarrow> bool" where
  \<comment> \<open>a non-empty string over the letters-only alphabet\<close>
  "letters_only s \<longleftrightarrow> s \<noteq> [] \<and> list_all is_letter s"

definition valid_constraint :: "string \<Rightarrow> bool" where
  \<comment> \<open>what \<open>generate\<close> accepts as \<open>start_with\<close> or \<open>end_with\<close>: lowercased and stripped, the
     argument is empty or matches the letters-only pattern\<close>
  "valid_constraint s \<longleftrightarrow> strip (lower s) = [] \<or> is_valid_name_part (strip (lower s))"

inductive trained :: "model \<Rightarrow> bool" where
  \<comment> \<open>the models that \<open>__init__\<close> and any number of successful calls of \<open>train\<close> produce\<close>
  first: "train (init k) ns weights = Inr m \<Longrightarrow> trained m"
| again: "trained m \<Longrightarrow> train m ns weights = Inr m' \<Longrightarrow> trained m'"

section \<open>Concrete models and random sources\<close>

definition zero_source :: "nat \<Rightarrow> nat" where
  \<comment> \<open>the random source whose every draw is 0\<close>
  "zero_source i = 0"

definition juha_model :: model where
  \<comment> \<open>\<open>MarkovNameGenerator(order=2)\<close> after \<open>train(['Juha'])\<close>\<close>
  "juha_model =
     \<lparr>order = 2,
      chains = [(''^^'', [(CHR ''j'', 1)]), (''^j'', [(CHR ''u'', 1)]), (''ju'', [(CHR ''h'', 1)]),
                (''uh'', [(CHR ''a'', 1)]), (''ha'', [(CHR ''$'', 1)])],
      names = [''Juha'']\<rparr>"

definition ab_model :: model where
  \<comment> \<open>\<open>MarkovNameGenerator(order=1)\<close> after \<open>train(['ab'])\<close>\<close>
  "ab_model =
     \<lparr>order = 1,
      chains = [(''^'', [(CHR ''a'', 1)]), (''a'', [(CHR ''b'', 1)]), (''b'', [(CHR ''$'', 1)])],
      names = [''Ab'']\<rparr>"


definition lulu_model :: model where
  \<comment> \<open>\<open>MarkovNameGenerator(order=1)\<close> after \<open>train(['Lulu'], [1])\<close>\<close>
  "lulu_model =
     \<lparr>order = 1,
      chains = [(''^'', [(CHR ''l'', 1)]), (''l'', [(CHR ''u'', 2)]),
                (''u'', [(CHR ''l'', 1), (CHR ''$'', 1)])],
      names = [''Lulu'']\<rparr>"

definition zero_model :: model where
  \<comment> \<open>\<open>MarkovNameGenerator(order=1)\<close> after \<open>train(['ab'], [0])\<close>\<close>
  "zero_model =
     \<lparr>order = 1,
      chains = [(''^'', [(CHR ''a'', 0)]), (''a'', [(CHR ''b'', 0)]), (''b'', [(CHR ''$'', 0)])],
      names = [''Ab'']\<rparr>"

definition tab_name :: string where
  \<comment> \<open>the Python string \<open>'a\tb'\<close>\<close>
  "tab_name = [CHR ''a'', CHR 0x09, CHR ''b'']"

section \<open>Invariants used in the proofs\<close>

definition claimed_alphabet :: "char \<Rightarrow> bool" where
  \<comment> \<open>the specification's words for the alphabet of names: letters (with the six
     letters with diacritics), space, hyphen, apostrophe\<close>
  "claimed_alphabet c \<longleftrightarrow> is_letter c \<or> c = CHR '' '' \<or> c = CHR ''-'' \<or> c = CHR 0x27"

definition model_ok :: "model \<Rightarrow> bool" where
  \<comment> \<open>what every model built by \<open>__init__\<close> and \<open>train\<close> satisfies\<close>
  "model_ok m \<longleftrightarrow>
     keys_ok (order m) (chains m) \<and> no_start_target (chains m) \<and> distinct_keys (chains m)"

definition start_ok :: "nat \<Rightarrow> table \<Rightarrow> bool" where
  \<comment> \<open>the end marker never follows the start context directly, and a table that is not
     empty has a continuation for the start context\<close>
  "start_ok k ch \<longleftrightarrow>
     list_all (\<lambda>q. fst q \<noteq> CHR ''$'') (counter_of ch (replicate k CHR ''^'')) \<and>
     (ch = [] \<or> counter_of ch (replicate k CHR ''^'') \<noteq> [])"

section \<open>Facts about characters and strings\<close>

text \<open>
  Case mapping and stripping are computed on character codes; what the proofs need is
  that both are idempotent, commute, and leave the markers and the whitespace alone.
\<close>

lemma code_char_of: "n < 256 \<Longrightarrow> code (char_of n) = n"
  by (simp add: code_def)

lemma code_inj: "code c = code d \<longleftrightarrow> c = d"
  by (simp add: code_def)

lemma code_lower_char: "code (lower_char c) = (if is_upper c then code c + 32 else code c)"
  by (auto simp: lower_char_def is_upper_def code_char_of)

lemma code_title_char: "code (title_char c) = (if is_lower c then code c - 32 else code c)"
  by (auto simp: title_char_def is_lower_def code_char_of)

lemma lower_char_idem: "lower_char (lower_char c) = lower_char c"
  by (simp add: code_inj [symmetric] code_lower_char is_upper_def)

lemma lower_title_char: "lower_char (title_char c) = lower_char c"
  by (auto simp add: code_inj [symmetric] code_lower_char code_title_char is_upper_def is_lower_def)

lemma is_space_lower_char: "is_space (lower_char c) = is_space c"
  by (auto simp add: is_space_def code_lower_char is_upper_def)

lemma marker_codes: "code CHR ''^'' = 94" "code CHR ''$'' = 36" "code CHR '' '' = 32" "code CHR ''-'' = 45" "code (CHR 0x27) = 39"
  by (simp_all add: code_def)

lemma lower_char_marker:
  "lower_char c = CHR ''^'' \<longleftrightarrow> c = CHR ''^''" "lower_char c = CHR ''$'' \<longleftrightarrow> c = CHR ''$''"
  "CHR ''^'' = lower_char c \<longleftrightarrow> c = CHR ''^''" "CHR ''$'' = lower_char c \<longleftrightarrow> c = CHR ''$''"
  by (auto simp add: code_inj [symmetric] code_lower_char marker_codes is_upper_def)

lemma title_char_marker:
  "title_char c = CHR ''^'' \<longleftrightarrow> c = CHR ''^''" "title_char c = CHR ''$'' \<longleftrightarrow> c = CHR ''$''"
  "CHR ''^'' = title_char c \<longleftrightarrow> c = CHR ''^''" "CHR ''$'' = title_char c \<longleftrightarrow> c = CHR ''$''"
  by (auto simp add: code_inj [symmetric] code_title_char marker_codes is_lower_def)

lemma name_char_not_marker: "is_name_char c \<Longrightarrow> c \<noteq> CHR ''^'' \<and> c \<noteq> CHR ''$''"
  by (auto simp add: is_name_char_def is_letter_def is_space_def marker_codes)

lemma letter_not_space: "is_letter c \<Longrightarrow> \<not> is_space c"
  by (auto simp add: is_letter_def is_space_def)

lemma length_title_from: "length (title_from b s) = length s"
  by (induction s arbitrary: b) simp_all

lemma lower_title_from: "lower (title_from b s) = lower s"
  by (induction s arbitrary: b) (simp_all add: lower_def lower_char_idem lower_title_char)

lemma lower_idem: "lower (lower s) = lower s"
  by (simp add: lower_def lower_char_idem)

lemma strip_lower: "strip (lower s) = lower (strip s)"
proof -
  have comp: "is_space \<circ> lower_char = is_space"
    by (rule ext) (simp add: is_space_lower_char)
  show ?thesis
    by (simp add: strip_def lower_def dropWhile_map rev_map comp)
qed

lemma dropWhile_self: "xs = [] \<or> \<not> P (hd xs) \<Longrightarrow> dropWhile P xs = xs"
  by (cases xs) auto

lemma strip_id:
  assumes "s = [] \<or> (\<not> is_space (hd s) \<and> \<not> is_space (last s))"
  shows "strip s = s"
proof (cases "s = []")
  case True
  then show ?thesis by (simp add: strip_def)
next
  case False
  with assms have ends: "\<not> is_space (hd s)" "\<not> is_space (last s)" by simp_all
  have "dropWhile is_space s = s"
    using ends(1) by (simp add: dropWhile_self)
  moreover have "dropWhile is_space (rev s) = rev s"
    using ends(2) False by (simp add: dropWhile_self hd_rev)
  ultimately show ?thesis by (simp add: strip_def)
qed

lemma strip_ends:
  assumes "strip s \<noteq> []"
  shows "\<not> is_space (hd (strip s)) \<and> \<not> is_space (last (strip s))"
proof -
  define t where "t = dropWhile is_space s"
  define u where "u = dropWhile is_space (rev t)"
  have strip: "strip s = rev u"
    by (simp add: strip_def t_def u_def)
  with assms have u: "u \<noteq> []" by simp
  then have t: "t \<noteq> []" by (auto simp: u_def)
  have "\<not> is_space (hd u)"
    using u unfolding u_def by (rule hd_dropWhile)
  moreover have "rev t = takeWhile is_space (rev t) @ u"
    by (simp add: u_def)
  then have "last (rev t) = last u"
    using u by (metis last_appendR)
  then have "last u = hd t"
    using t by (simp add: last_rev)
  moreover have "\<not> is_space (hd t)"
    using t unfolding t_def by (rule hd_dropWhile)
  ultimately show ?thesis
    using u by (simp add: strip hd_rev last_rev)
qed

lemma strip_idem: "strip (strip s) = strip s"
  using strip_ends [of s] by (intro strip_id) blast

lemma norm_idem: "strip (lower (strip (lower s))) = strip (lower s)"
  by (simp add: strip_lower strip_idem lower_idem)

lemma strip_all: "\<forall>c\<in>set s. \<not> is_space c \<Longrightarrow> strip s = s"
  by (intro strip_id) (cases s, auto)

lemma mem_dropWhile: "x \<in> set xs \<Longrightarrow> \<not> P x \<Longrightarrow> x \<in> set (dropWhile P xs)"
  by (induction xs) auto

lemma strip_keeps: "c \<in> set s \<Longrightarrow> \<not> is_space c \<Longrightarrow> c \<in> set (strip s)"
  by (simp add: strip_def mem_dropWhile)

section \<open>The weights that training stores\<close>

text \<open>
  Every round of the inner loop of \<open>train\<close> adds the weight of the example to one
  window; the weight of a window after training is what it was before plus the
  contributions of the examples.
\<close>

lemma map_of_getitem:
  "map_of (getitem ch ctx) = (case map_of ch ctx of None \<Rightarrow> (map_of ch)(ctx \<mapsto> []) | Some cnt \<Rightarrow> map_of ch)"
  by (auto simp: getitem_def map_add_def fun_eq_iff split: option.splits)

lemma weight_of_add_transition:
  "weight_of (add_transition w ctx c ch) ctx' c' =
     weight_of ch ctx' c' + (if ctx' = ctx \<and> c' = c then w else 0)"
  by (auto simp: weight_of_def add_transition_def counter_of_def count_of_def Let_def
      update_conv' map_of_getitem split: option.splits)

lemma weight_of_fold_window:
  "weight_of (fold (add_window k w padded) js ch) ctx c =
     weight_of ch ctx c + w * int (length (filter (is_window k padded ctx c) js))"
  by (induction js arbitrary: ch)
    (auto simp: add_window_def weight_of_add_transition is_window_def algebra_simps)

lemma weight_of_add_windows:
  "weight_of (add_windows k w padded ch) ctx c =
     weight_of ch ctx c + w * int (window_count k padded ctx c)"
  by (simp add: add_windows_def window_count_def weight_of_fold_window)

lemma order_train_example: "order (train_example ex m) = order m"
  by (simp add: train_example_def Let_def)

lemma order_fold_train: "order (fold train_example exs m) = order m"
  by (induction exs arbitrary: m) (simp_all add: order_train_example)

lemma weight_of_train_example:
  "weight_of (chains (train_example ex m)) ctx c =
     weight_of (chains m) ctx c + contribution (order m) ctx c ex"
  by (simp add: train_example_def contribution_def Let_def weight_of_add_windows)

lemma weight_of_fold_train:
  "weight_of (chains (fold train_example exs m)) ctx c =
     weight_of (chains m) ctx c + expected_weight (order m) exs ctx c"
  by (induction exs arbitrary: m)
    (simp_all add: expected_weight_def weight_of_train_example order_train_example)

section \<open>One round of the generation loop\<close>

text \<open>
  The seven ways through the body of the loop. Only the first changes the model, and
  only if the search for a shorter context succeeds.
\<close>

lemma getitem_has_key: "has_key ch ctx \<Longrightarrow> getitem ch ctx = ch"
  by (auto simp: getitem_def has_key_def)

lemma getitem_absent: "\<not> has_key ch ctx \<Longrightarrow> getitem ch ctx = ch @ [(ctx, [])]"
  by (auto simp: getitem_def has_key_def)

lemma counter_of_absent: "\<not> has_key ch ctx \<Longrightarrow> counter_of ch ctx = []"
  by (auto simp: counter_of_def has_key_def)

lemma counter_of_mem: "has_key ch ctx \<Longrightarrow> (ctx, counter_of ch ctx) \<in> set ch"
  by (auto simp: counter_of_def has_key_def dest: map_of_SomeD)

lemma step_cases [consumes 1, case_names absent empty raised end_ok end_retry end_reset append]:
  assumes "step rand mn sw m ctx name i = (r, m', i')"
  obtains
    (absent) "\<not> has_key (chains m) ctx" "r = Inl (Finished name)" "i' = i"
      "m' = m \<or> (try_alternative_context (chains m) ctx \<and>
                  m' = m\<lparr>chains := chains m @ [(ctx, [])]\<rparr>)"
  | (empty) "has_key (chains m) ctx" "counter_of (chains m) ctx = []"
      "r = Inl (Finished name)" "m' = m" "i' = i"
  | (raised) e where "has_key (chains m) ctx" "counter_of (chains m) ctx \<noteq> []"
      "choices (counter_of (chains m) ctx) (rand i) = Inl e"
      "r = Inl (Raised e)" "m' = m" "i' = i"
  | (end_ok) "has_key (chains m) ctx"
      "choices (counter_of (chains m) ctx) (rand i) = Inr CHR ''$''"
      "mn \<le> int (length name)" "r = Inl (Finished name)" "m' = m" "i' = Suc i"
  | (end_retry) "has_key (chains m) ctx"
      "choices (counter_of (chains m) ctx) (rand i) = Inr CHR ''$''"
      "\<not> mn \<le> int (length name)" "sw \<noteq> []" "r = Inl Retry" "m' = m" "i' = Suc i"
  | (end_reset) "has_key (chains m) ctx"
      "choices (counter_of (chains m) ctx) (rand i) = Inr CHR ''$''"
      "\<not> mn \<le> int (length name)" "sw = []"
      "r = Inr (replicate (order m) CHR ''^'', [])" "m' = m" "i' = Suc i"
  | (append) c where "has_key (chains m) ctx"
      "choices (counter_of (chains m) ctx) (rand i) = Inr c" "c \<noteq> CHR ''$''"
      "r = Inr (tl ctx @ [c], name @ [c])" "m' = m" "i' = Suc i"
proof (cases "has_key (chains m) ctx")
  case False
  then have "r = Inl (Finished name)" "i' = i"
    "m' = m \<or> (try_alternative_context (chains m) ctx \<and>
                m' = m\<lparr>chains := chains m @ [(ctx, [])]\<rparr>)"
    using assms
    by (auto simp: step_def Let_def counter_of_absent getitem_absent split: if_splits)
  with False show ?thesis by (rule absent)
next
  case True
  then have m: "m\<lparr>chains := getitem (chains m) ctx\<rparr> = m"
    by (simp add: getitem_has_key)
  show ?thesis
  proof (cases "counter_of (chains m) ctx = []")
    case True
    with \<open>has_key (chains m) ctx\<close> assms m
    have "r = Inl (Finished name)" "m' = m" "i' = i"
      by (simp_all add: step_def Let_def)
    with \<open>has_key (chains m) ctx\<close> True show ?thesis by (rule empty)
  next
    case False
    note nonempty = this
    show ?thesis
    proof (cases "choices (counter_of (chains m) ctx) (rand i)")
      case (Inl e)
      with \<open>has_key (chains m) ctx\<close> nonempty assms m
      have "r = Inl (Raised e)" "m' = m" "i' = i"
        by (simp_all add: step_def Let_def)
      with \<open>has_key (chains m) ctx\<close> nonempty Inl show ?thesis by (rule raised)
    next
      case (Inr c)
      with \<open>has_key (chains m) ctx\<close> nonempty assms m
      have res: "(if c = CHR ''$'' then
                   (if mn \<le> int (length name) then (Inl (Finished name), m, Suc i)
                    else if sw \<noteq> [] then (Inl Retry, m, Suc i)
                    else (Inr (replicate (order m) CHR ''^'', []), m, Suc i))
                 else (Inr (tl ctx @ [c], name @ [c]), m, Suc i)) = (r, m', i')"
        by (simp add: step_def Let_def)
      show ?thesis
      proof (cases "c = CHR ''$''")
        case False
        with res have "r = Inr (tl ctx @ [c], name @ [c])" "m' = m" "i' = Suc i"
          by auto
        with \<open>has_key (chains m) ctx\<close> Inr False show ?thesis by (rule append)
      next
        case True
        note dollar = this
        show ?thesis
        proof (cases "mn \<le> int (length name)")
          case True
          with res dollar have "r = Inl (Finished name)" "m' = m" "i' = Suc i"
            by auto
          with \<open>has_key (chains m) ctx\<close> Inr dollar True show ?thesis
            by (intro end_ok) simp_all
        next
          case False
          note short = this
          show ?thesis
          proof (cases "sw = []")
            case True
            with res dollar short
            have "r = Inr (replicate (order m) CHR ''^'', [])" "m' = m" "i' = Suc i"
              by auto
            with \<open>has_key (chains m) ctx\<close> Inr dollar short True show ?thesis
              by (intro end_reset) simp_all
          next
            case False
            with res dollar short have "r = Inl Retry" "m' = m" "i' = Suc i"
              by auto
            with \<open>has_key (chains m) ctx\<close> Inr dollar short False show ?thesis
              by (intro end_retry) simp_all
          qed
        qed
      qed
    qed
  qed
qed

section \<open>The generation loop\<close>

text \<open>
  An invariant rule for the loop, and the bound on the length of the name.
\<close>

lemma loop_rule [consumes 1, case_names init keep exit exhausted]:
  assumes run: "loop rand mn sw n m ctx name i = (ex, m', i')"
    and init: "Inv m ctx name"
    and keep: "\<And>m ctx name i ctx' name' m1 i1.
        Inv m ctx name \<Longrightarrow> step rand mn sw m ctx name i = (Inr (ctx', name'), m1, i1)
          \<Longrightarrow> Inv m1 ctx' name'"
    and exit: "\<And>m ctx name i ex m1 i1.
        Inv m ctx name \<Longrightarrow> step rand mn sw m ctx name i = (Inl ex, m1, i1) \<Longrightarrow> Q ex m1"
    and exhausted: "\<And>m ctx name. Inv m ctx name \<Longrightarrow> Q (Finished name) m"
  shows "Q ex m'"
  using run init
proof (induction n arbitrary: m ctx name i)
  case 0
  then show ?case using exhausted by auto
next
  case (Suc n)
  obtain r m1 i1 where st: "step rand mn sw m ctx name i = (r, m1, i1)"
    by (cases "step rand mn sw m ctx name i") auto
  show ?case
  proof (cases r)
    case (Inl ex1)
    with st Suc.prems(1) have "ex = ex1" "m' = m1" by simp_all
    with exit [OF Suc.prems(2)] st Inl show ?thesis by simp
  next
    case (Inr p)
    obtain ctx' name' where p: "p = (ctx', name')" by (cases p)
    with st Inr Suc.prems(1)
    have "loop rand mn sw n m1 ctx' name' i1 = (ex, m', i')" by simp
    moreover have "Inv m1 ctx' name'"
      using keep [OF Suc.prems(2)] st Inr p by simp
    ultimately show ?thesis by (rule Suc.IH)
  qed
qed

lemma loop_length:
  "loop rand mn sw n m ctx name i = (Finished name', m', i') \<Longrightarrow> length name' \<le> length name + n"
proof (induction n arbitrary: m ctx name i)
  case 0
  then show ?case by simp
next
  case (Suc n)
  obtain r m1 i1 where st: "step rand mn sw m ctx name i = (r, m1, i1)"
    by (cases "step rand mn sw m ctx name i") auto
  from st show ?case
  proof (cases rule: step_cases)
    case end_reset
    with st Suc.prems
    have "loop rand mn sw n m1 (replicate (order m) CHR ''^'') [] i1 = (Finished name', m', i')"
      by simp
    from Suc.IH [OF this] show ?thesis by simp
  next
    case (append c)
    with st Suc.prems
    have "loop rand mn sw n m1 (tl ctx @ [c]) (name @ [c]) i1 = (Finished name', m', i')"
      by simp
    from Suc.IH [OF this] show ?thesis by simp
  qed (use st Suc.prems in auto)
qed

section \<open>An induction rule for the calls of generate that return\<close>

text \<open>
  One case for every way in which a call of \<open>generate\<close> returns: three exceptions
  before the loop, an exception in the loop, and the results after the loop, returned
  at once or after a retry. The property of a retry is assumed for the call it makes.
\<close>

lemma length_capitalize: "length (capitalize_name name) = length name"
  by (simp add: capitalize_name_def title_def length_title_from)

lemma capitalize_nonempty: "name \<noteq> [] \<Longrightarrow> capitalize_name name \<noteq> []"
  using length_capitalize [of name] by (cases "capitalize_name name") auto

lemma generate_induct [consumes 1, case_names not_trained bad_start bad_end raised retry
    named named_retry empty_raised empty_ok empty_retry]:
  assumes ret: "generate rand m mx mn sw0 ew0 i = Some res"
    and not_trained: "\<And>m sw0 ew0 i. chains m = [] \<Longrightarrow> P m sw0 ew0 i (Inl ModelNotTrained, m, i)"
    and bad_start: "\<And>m sw0 ew0 i. chains m \<noteq> [] \<Longrightarrow> \<not> valid_constraint sw0
        \<Longrightarrow> P m sw0 ew0 i (Inl InvalidStart, m, i)"
    and bad_end: "\<And>m sw0 ew0 i. chains m \<noteq> [] \<Longrightarrow> valid_constraint sw0 \<Longrightarrow> \<not> valid_constraint ew0
        \<Longrightarrow> P m sw0 ew0 i (Inl InvalidEnd, m, i)"
    and raised: "\<And>m sw0 ew0 i e m1 i1.
        chains m \<noteq> [] \<Longrightarrow> valid_constraint sw0 \<Longrightarrow> valid_constraint ew0
        \<Longrightarrow> run_loop rand m mx mn (strip (lower sw0)) i = (Raised e, m1, i1)
        \<Longrightarrow> P m sw0 ew0 i (Inl e, m1, i1)"
    and retry: "\<And>m sw0 ew0 i m1 i1 res.
        chains m \<noteq> [] \<Longrightarrow> valid_constraint sw0 \<Longrightarrow> valid_constraint ew0
        \<Longrightarrow> run_loop rand m mx mn (strip (lower sw0)) i = (Retry, m1, i1)
        \<Longrightarrow> P m1 (strip (lower sw0)) (strip (lower ew0)) i1 res
        \<Longrightarrow> P m sw0 ew0 i res"
    and named: "\<And>m sw0 ew0 i name m1 i1.
        chains m \<noteq> [] \<Longrightarrow> valid_constraint sw0 \<Longrightarrow> valid_constraint ew0
        \<Longrightarrow> run_loop rand m mx mn (strip (lower sw0)) i = (Finished name, m1, i1)
        \<Longrightarrow> name \<noteq> []
        \<Longrightarrow> strip (lower ew0) = [] \<or>
              endswith (lower (capitalize_name name)) (strip (lower ew0))
        \<Longrightarrow> P m sw0 ew0 i (Inr (capitalize_name name), m1, i1)"
    and named_retry: "\<And>m sw0 ew0 i name m1 i1 res.
        chains m \<noteq> [] \<Longrightarrow> valid_constraint sw0 \<Longrightarrow> valid_constraint ew0
        \<Longrightarrow> run_loop rand m mx mn (strip (lower sw0)) i = (Finished name, m1, i1)
        \<Longrightarrow> name \<noteq> []
        \<Longrightarrow> \<not> endswith (lower (capitalize_name name)) (strip (lower ew0))
        \<Longrightarrow> P m1 (strip (lower sw0)) (strip (lower ew0)) i1 res
        \<Longrightarrow> P m sw0 ew0 i res"
    and empty_raised: "\<And>m sw0 ew0 i m1 i1 e m2 i2.
        chains m \<noteq> [] \<Longrightarrow> valid_constraint sw0 \<Longrightarrow> valid_constraint ew0
        \<Longrightarrow> run_loop rand m mx mn (strip (lower sw0)) i = (Finished [], m1, i1)
        \<Longrightarrow> P m1 (strip (lower sw0)) (strip (lower ew0)) i1 (Inl e, m2, i2)
        \<Longrightarrow> P m sw0 ew0 i (Inl e, m2, i2)"
    and empty_ok: "\<And>m sw0 ew0 i m1 i1 r m2 i2.
        chains m \<noteq> [] \<Longrightarrow> valid_constraint sw0 \<Longrightarrow> valid_constraint ew0
        \<Longrightarrow> run_loop rand m mx mn (strip (lower sw0)) i = (Finished [], m1, i1)
        \<Longrightarrow> P m1 (strip (lower sw0)) (strip (lower ew0)) i1 (Inr r, m2, i2)
        \<Longrightarrow> r = [] \<or> strip (lower ew0) = [] \<or> endswith (lower r) (strip (lower ew0))
        \<Longrightarrow> P m sw0 ew0 i (Inr r, m2, i2)"
    and empty_retry: "\<And>m sw0 ew0 i m1 i1 r m2 i2 res.
        chains m \<noteq> [] \<Longrightarrow> valid_constraint sw0 \<Longrightarrow> valid_constraint ew0
        \<Longrightarrow> run_loop rand m mx mn (strip (lower sw0)) i = (Finished [], m1, i1)
        \<Longrightarrow> P m1 (strip (lower sw0)) (strip (lower ew0)) i1 (Inr r, m2, i2)
        \<Longrightarrow> \<not> endswith (lower r) (strip (lower ew0))
        \<Longrightarrow> P m2 (strip (lower sw0)) (strip (lower ew0)) i2 res
        \<Longrightarrow> P m sw0 ew0 i res"
  shows "P m sw0 ew0 i res"
proof -
  have "rand = rand \<longrightarrow> mx = mx \<longrightarrow> mn = mn \<longrightarrow> P m sw0 ew0 i res"
  proof (rule generate.raw_induct
      [where P = "\<lambda>rand' m mx' mn' sw0 ew0 i res.
          rand' = rand \<longrightarrow> mx' = mx \<longrightarrow> mn' = mn \<longrightarrow> P m sw0 ew0 i res", OF _ ret],
      goal_cases)
    case (1 f rand' m mx' mn' sw0 ew0 i res)
    note IH = 1(1) and eq = 1(2)
    show ?case
    proof (intro impI)
      assume same: "rand' = rand" "mx' = mx" "mn' = mn"
      have IH': "P m1 s e j r" if "f rand m1 mx mn s e j = Some r" for m1 s e j r
        using IH [OF that] by simp
      show "P m sw0 ew0 i res"
      proof (cases "chains m = []")
        case True
        with eq have "res = (Inl ModelNotTrained, m, i)" by simp
        with True not_trained show ?thesis by simp
      next
        case False
        note tr = this
        show ?thesis
        proof (cases "valid_constraint sw0")
          case False
          with tr eq have "res = (Inl InvalidStart, m, i)"
            by (simp add: valid_constraint_def)
          with tr False bad_start show ?thesis by simp
        next
          case True
          note vs = this
          show ?thesis
          proof (cases "valid_constraint ew0")
            case False
            with tr vs eq have "res = (Inl InvalidEnd, m, i)"
              by (auto simp add: valid_constraint_def)
            with tr vs False bad_end show ?thesis by simp
          next
            case True
            note ve = this
            obtain ex m1 i1 where
              run: "run_loop rand m mx mn (strip (lower sw0)) i = (ex, m1, i1)"
              by (cases "run_loop rand m mx mn (strip (lower sw0)) i") auto
            from tr vs ve have guards:
              "\<not> (strip (lower sw0) \<noteq> [] \<and> \<not> is_valid_name_part (strip (lower sw0)))"
              "\<not> (strip (lower ew0) \<noteq> [] \<and> \<not> is_valid_name_part (strip (lower ew0)))"
              by (auto simp: valid_constraint_def)
            have eq1: "(case (ex, m1, i1) of
                (Finished name, m1, i1) \<Rightarrow>
                  Option.bind
                    (if name \<noteq> [] then Some (Inr (capitalize_name name), m1, i1)
                     else f rand m1 mx mn (strip (lower sw0)) (strip (lower ew0)) i1)
                    (\<lambda>(res, m2, i2).
                       case res of
                         Inl e \<Rightarrow> Some (Inl e, m2, i2)
                       | Inr result \<Rightarrow>
                           if result \<noteq> [] \<and> strip (lower ew0) \<noteq> [] \<and>
                              \<not> endswith (lower result) (strip (lower ew0))
                           then f rand m2 mx mn (strip (lower sw0)) (strip (lower ew0)) i2
                           else Some (Inr result, m2, i2))
              | (Retry, m1, i1) \<Rightarrow>
                  f rand m1 mx mn (strip (lower sw0)) (strip (lower ew0)) i1
              | (Raised e, m1, i1) \<Rightarrow> Some (Inl e, m1, i1)) = Some res"
              using eq [unfolded same] tr guards by (simp add: run)
            show ?thesis
            proof (cases ex)
              case (Raised e)
              with eq1 have "res = (Inl e, m1, i1)" by simp
              with raised [OF tr vs ve] run Raised show ?thesis by simp
            next
              case Retry
              with eq1
              have "f rand m1 mx mn (strip (lower sw0)) (strip (lower ew0)) i1 = Some res"
                by simp
              from IH' [OF this] retry [OF tr vs ve] run Retry show ?thesis by simp
            next
              case (Finished name)
              note fin = this
              show ?thesis
              proof (cases "name = []")
                case False
                note nm = this
                show ?thesis
                proof (cases "strip (lower ew0) = [] \<or>
                    endswith (lower (capitalize_name name)) (strip (lower ew0))")
                  case True
                  with eq1 fin nm
                  have "res = (Inr (capitalize_name name), m1, i1)" by auto
                  with named [OF tr vs ve _ nm True] run fin show ?thesis by simp
                next
                  case False
                  moreover have "capitalize_name name \<noteq> []"
                    using nm by (simp add: capitalize_nonempty)
                  ultimately
                  have "f rand m1 mx mn (strip (lower sw0)) (strip (lower ew0)) i1 = Some res"
                    using eq1 fin nm by simp
                  from IH' [OF this] named_retry [OF tr vs ve _ nm] run fin False
                  show ?thesis by simp
                qed
              next
                case True
                with eq1 fin
                obtain res1 m2 i2 where
                  inner: "f rand m1 mx mn (strip (lower sw0)) (strip (lower ew0)) i1 =
                    Some (res1, m2, i2)"
                  and rest: "(case res1 of
                      Inl e \<Rightarrow> Some (Inl e, m2, i2)
                    | Inr result \<Rightarrow>
                        if result \<noteq> [] \<and> strip (lower ew0) \<noteq> [] \<and>
                           \<not> endswith (lower result) (strip (lower ew0))
                        then f rand m2 mx mn (strip (lower sw0)) (strip (lower ew0)) i2
                        else Some (Inr result, m2, i2)) = Some res"
                  by (auto simp: Option.bind_eq_Some_conv)
                have run': "run_loop rand m mx mn (strip (lower sw0)) i = (Finished [], m1, i1)"
                  using run fin True by simp
                note P1 = IH' [OF inner]
                show ?thesis
                proof (cases res1)
                  case (Inl e)
                  with rest have "res = (Inl e, m2, i2)" by simp
                  with empty_raised [OF tr vs ve run'] P1 Inl show ?thesis by simp
                next
                  case (Inr r)
                  show ?thesis
                  proof (cases "r = [] \<or> strip (lower ew0) = [] \<or>
                      endswith (lower r) (strip (lower ew0))")
                    case True
                    with rest Inr have "res = (Inr r, m2, i2)" by auto
                    with empty_ok [OF tr vs ve run' _ True] P1 Inr show ?thesis by simp
                  next
                    case False
                    with rest Inr
                    have "f rand m2 mx mn (strip (lower sw0)) (strip (lower ew0)) i2 = Some res"
                      by simp
                    from IH' [OF this] empty_retry [OF tr vs ve run' _ _] P1 Inr False
                    show ?thesis by simp
                  qed
                qed
              qed
            qed
          qed
        qed
      qed
    qed
  qed
  then show ?thesis by simp
qed

section \<open>What the loop keeps\<close>

lemma valid_constraint_norm: "valid_constraint (strip (lower s)) = valid_constraint s"
  by (simp add: valid_constraint_def norm_idem)

lemma lower_norm: "lower (strip (lower s)) = strip (lower s)"
  by (simp add: strip_lower lower_idem)

lemma fst_seed: "fst (seed k sw) = sw"
  by (simp add: seed_def)

lemma length_snd_seed: "k = 0 \<or> length (snd (seed k sw)) = k"
  by (auto simp: seed_def)

lemma some_suffix_keyD:
  "some_suffix_key ch s \<Longrightarrow> \<exists>t. has_key ch t \<and> 0 < length t \<and> length t \<le> length s"
  by (induction s) (auto intro: le_SucI)

lemma has_key_length: "keys_ok k ch \<Longrightarrow> has_key ch t \<Longrightarrow> length t = k"
  by (auto simp: keys_ok_def has_key_def list_all_iff dest!: map_of_SomeD)

lemma no_alternative:
  assumes "keys_ok k ch" and "k = 0 \<or> length ctx = k"
  shows "\<not> try_alternative_context ch ctx"
proof
  assume "try_alternative_context ch ctx"
  then obtain t where t: "has_key ch t" "0 < length t" "length t \<le> length (tl ctx)"
    unfolding try_alternative_context_def by (blast dest: some_suffix_keyD)
  from has_key_length [OF assms(1) t(1)] t(2,3) assms(2) show False
    by auto
qed

lemma run_loop_same:
  assumes ok: "keys_ok (order m) (chains m)"
    and run: "run_loop rand m mx mn sw i = (ex, m1, i1)"
  shows "m1 = m"
  using run [unfolded run_loop_def]
proof (induction rule: loop_rule
    [where Inv = "\<lambda>m' ctx name. m' = m \<and> (order m = 0 \<or> length ctx = order m)"
       and Q = "\<lambda>ex m'. m' = m"])
  case init
  show ?case using length_snd_seed [of "order m" sw] by simp
next
  case (keep m' ctx name i ctx' name' m1 i1)
  from keep(2) keep(1) show ?case
    by (cases rule: step_cases) auto
next
  case (exit m' ctx name i ex m1 i1)
  from exit(2) exit(1) no_alternative [OF ok, of ctx] show ?case
    by (cases rule: step_cases) auto
next
  case (exhausted m' ctx name)
  then show ?case by simp
qed

lemma run_loop_grows:
  assumes run: "run_loop rand m mx mn sw i = (ex, m1, i1)"
  shows "m1 = m \<or> (\<exists>ctx. m1 = m\<lparr>chains := chains m @ [(ctx, [])]\<rparr>)"
  using run [unfolded run_loop_def]
proof (induction rule: loop_rule
    [where Inv = "\<lambda>m' ctx name. m' = m"
       and Q = "\<lambda>ex m'. m' = m \<or> (\<exists>ctx. m' = m\<lparr>chains := chains m @ [(ctx, [])]\<rparr>)"])
  case (keep m' ctx name i ctx' name' m1 i1)
  from keep(2) keep(1) show ?case
    by (cases rule: step_cases) auto
next
  case (exit m' ctx name i ex m1 i1)
  from exit(2) exit(1) show ?case
    by (cases rule: step_cases) auto
qed simp_all

lemma run_loop_prefix:
  assumes sw: "sw \<noteq> []"
    and run: "run_loop rand m mx mn sw i = (Finished name, m1, i1)"
  shows "\<exists>extra. name = sw @ extra"
proof -
  have "\<forall>n. Finished name = Finished n \<longrightarrow> (\<exists>extra. n = sw @ extra)"
    using run [unfolded run_loop_def]
  proof (induction rule: loop_rule
      [where Inv = "\<lambda>m' ctx name. \<exists>extra. name = sw @ extra"
         and Q = "\<lambda>ex m'. \<forall>n. ex = Finished n \<longrightarrow> (\<exists>extra. n = sw @ extra)"])
    case (keep m' ctx name i ctx' name' m1 i1)
    from keep(2) keep(1) sw show ?case
      by (cases rule: step_cases) auto
  next
    case (exit m' ctx name i ex m1 i1)
    from exit(2) exit(1) show ?case
      by (cases rule: step_cases) auto
  qed (simp_all add: fst_seed)
  then show ?thesis by simp
qed

lemma run_loop_no_retry:
  assumes "mn \<le> 0 \<or> sw = []"
  shows "run_loop rand m mx mn sw i \<noteq> (Retry, m1, i1)"
proof
  assume run: "run_loop rand m mx mn sw i = (Retry, m1, i1)"
  have "Retry \<noteq> Retry"
    using run [unfolded run_loop_def]
  proof (induction rule: loop_rule
      [where Inv = "\<lambda>m' ctx name. True" and Q = "\<lambda>ex m'. ex \<noteq> Retry"])
    case (exit m' ctx name i ex m1 i1)
    from exit(2) assms show ?case
      by (cases rule: step_cases) auto
  qed simp_all
  then show False by simp
qed

lemma run_loop_length:
  assumes "run_loop rand m mx mn sw i = (Finished name, m1, i1)"
  shows "int (length name) \<le> max mx (int (length sw))"
  using loop_length [OF assms [unfolded run_loop_def]] by (simp add: fst_seed)

lemma bisect_bounds: "lo \<le> hi \<Longrightarrow> lo \<le> bisect a x lo hi \<and> bisect a x lo hi \<le> hi"
proof (induction a x lo hi rule: bisect.induct)
  case (1 a x lo hi)
  show ?case
  proof (cases "lo < hi")
    case False
    with 1(3) show ?thesis by (simp add: bisect.simps)
  next
    case True
    let ?mid = "(lo + hi) div 2"
    from True have mid: "lo \<le> ?mid" "?mid < hi" by auto
    show ?thesis
    proof (cases "x < a ! ?mid")
      case True
      with 1(1) [OF \<open>lo < hi\<close> refl True] mid \<open>lo < hi\<close> show ?thesis
        by (subst (1 2) bisect.simps) (simp add: Let_def)
    next
      case False
      with 1(2) [OF \<open>lo < hi\<close> refl False] mid \<open>lo < hi\<close> show ?thesis
        by (subst (1 2) bisect.simps) (simp add: Let_def)
    qed
  qed
qed

lemma choices_mem:
  assumes "choices cnt r = Inr c"
  shows "c \<in> fst ` set cnt"
proof -
  from assms have "cnt \<noteq> []"
    by (auto simp: choices_def Let_def split: if_splits)
  then have "bisect a x 0 (length cnt - 1) < length cnt" for a x
    using bisect_bounds [of 0 "length cnt - 1" a x] by (cases cnt) auto
  with assms show ?thesis
    by (auto simp: choices_def Let_def split: if_splits intro!: imageI nth_mem)
qed

lemma choices_error: "choices cnt r = Inl e \<Longrightarrow> e = ChoicesError \<or> e = OverflowError"
  by (auto simp: choices_def Let_def split: if_splits)

lemma run_loop_raised:
  assumes run: "run_loop rand m mx mn sw i = (Raised e, m1, i1)"
  shows "e = ChoicesError \<or> e = OverflowError"
proof -
  have "\<forall>e'. Raised e = Raised e' \<longrightarrow> e' = ChoicesError \<or> e' = OverflowError"
    using run [unfolded run_loop_def]
  proof (induction rule: loop_rule
      [where Inv = "\<lambda>m' ctx name. True"
         and Q = "\<lambda>ex m'. \<forall>e'. ex = Raised e' \<longrightarrow> e' = ChoicesError \<or> e' = OverflowError"])
    case (exit m' ctx name i ex m1 i1)
    from exit(2) show ?case
      by (cases rule: step_cases) (auto dest: choices_error)
  qed simp_all
  then show ?thesis by simp
qed

section \<open>What generate keeps\<close>

lemma grows_invariants:
  assumes "m1 = m \<or> (\<exists>ctx. m1 = m\<lparr>chains := chains m @ [(ctx, [])]\<rparr>)"
  shows "chains m \<noteq> [] \<Longrightarrow> chains m1 \<noteq> []"
    and "pos_weights (chains m) \<Longrightarrow> pos_weights (chains m1)"
    and "no_start_target (chains m) \<Longrightarrow> no_start_target (chains m1)"
  using assms by (auto simp: pos_weights_def no_start_target_def)

lemma generate_endswith:
  assumes "generate rand m mx mn sw0 ew0 i = Some (Inr r, m', i')"
    and "strip (lower ew0) \<noteq> []"
  shows "endswith (lower r) (strip (lower ew0))"
proof -
  have "\<forall>r'. fst (Inr r :: error + string, m', i') = Inr r' \<longrightarrow> strip (lower ew0) \<noteq> []
      \<longrightarrow> endswith (lower r') (strip (lower ew0))"
    using assms(1)
    by (induction rule: generate_induct
        [where P = "\<lambda>m sw0 ew0 i res. \<forall>r. fst res = Inr r \<longrightarrow> strip (lower ew0) \<noteq> []
            \<longrightarrow> endswith (lower r) (strip (lower ew0))"])
      (auto simp add: norm_idem)
  with assms(2) show ?thesis by simp
qed

lemma generate_startswith:
  assumes "generate rand m mx mn sw0 ew0 i = Some (Inr r, m', i')"
  shows "startswith (lower r) (strip (lower sw0))"
proof -
  have "\<forall>r'. fst (Inr r :: error + string, m', i') = Inr r'
      \<longrightarrow> startswith (lower r') (strip (lower sw0))"
    using assms
  proof (induction rule: generate_induct
        [where P = "\<lambda>m sw0 ew0 i res. \<forall>r. fst res = Inr r
            \<longrightarrow> startswith (lower r) (strip (lower sw0))"])
    case (named m sw0 ew0 i name m1 i1)
    show ?case
    proof (cases "strip (lower sw0) = []")
      case True
      then show ?thesis by (simp add: startswith_def)
    next
      case False
      from run_loop_prefix [OF False named(4)] obtain extra
        where "name = strip (lower sw0) @ extra" by blast
      then have "lower (capitalize_name name) = strip (lower sw0) @ lower extra"
        using lower_norm [of sw0]
        by (simp add: capitalize_name_def title_def lower_title_from) (simp add: lower_def)
      then show ?thesis by (simp add: startswith_def)
    qed
  qed (simp_all add: norm_idem)
  then show ?thesis by simp
qed

lemma generate_same_model:
  assumes "generate rand m mx mn sw0 ew0 i = Some (res, m', i')"
    and "keys_ok (order m) (chains m)"
  shows "m' = m"
proof -
  have "keys_ok (order m) (chains m) \<longrightarrow> fst (snd (res, m', i')) = m"
    using assms(1)
  proof (induction rule: generate_induct
        [where P = "\<lambda>m sw0 ew0 i res. keys_ok (order m) (chains m) \<longrightarrow> fst (snd res) = m"])
    case (raised m sw0 ew0 i e m1 i1)
    then show ?case by (auto dest: run_loop_same)
  next
    case (retry m sw0 ew0 i m1 i1 res)
    then show ?case by (auto dest: run_loop_same)
  next
    case (named m sw0 ew0 i name m1 i1)
    then show ?case by (auto dest: run_loop_same)
  next
    case (named_retry m sw0 ew0 i name m1 i1 res)
    then show ?case by (auto dest: run_loop_same)
  next
    case (empty_raised m sw0 ew0 i m1 i1 e m2 i2)
    then show ?case by (auto dest: run_loop_same)
  next
    case (empty_ok m sw0 ew0 i m1 i1 r m2 i2)
    then show ?case by (auto dest: run_loop_same)
  next
    case (empty_retry m sw0 ew0 i m1 i1 r m2 i2 res)
    then show ?case by (auto dest: run_loop_same)
  qed simp_all
  with assms(2) show ?thesis by simp
qed

lemma run_loop_invariants:
  assumes "run_loop rand m mx mn sw i = (ex, m1, i1)"
  shows "(chains m \<noteq> [] \<longrightarrow> chains m1 \<noteq> []) \<and>
    (pos_weights (chains m) \<longrightarrow> pos_weights (chains m1)) \<and>
    (no_start_target (chains m) \<longrightarrow> no_start_target (chains m1))"
  using grows_invariants [OF run_loop_grows [OF assms]] by blast

lemma generate_not_untrained:
  assumes "generate rand m mx mn sw0 ew0 i = Some (res, m', i')"
    and "chains m \<noteq> []"
  shows "res \<noteq> Inl ModelNotTrained"
proof -
  have "chains m \<noteq> [] \<longrightarrow>
      chains (fst (snd (res, m', i'))) \<noteq> [] \<and> fst (res, m', i') \<noteq> Inl ModelNotTrained"
    using assms(1)
    by (induction rule: generate_induct
        [where P = "\<lambda>m sw0 ew0 i res. chains m \<noteq> [] \<longrightarrow>
            chains (fst (snd res)) \<noteq> [] \<and> fst res \<noteq> Inl ModelNotTrained"])
      (auto dest: run_loop_invariants run_loop_raised)
  with assms(2) show ?thesis by simp
qed

lemma generate_own_errors:
  assumes "generate rand m mx mn sw0 ew0 i = Some (res, m', i')"
    and "chains m \<noteq> []" and "valid_constraint sw0" and "valid_constraint ew0"
  shows "res \<noteq> Inl ModelNotTrained \<and> res \<noteq> Inl InvalidStart \<and> res \<noteq> Inl InvalidEnd"
proof -
  have "chains m \<noteq> [] \<and> valid_constraint sw0 \<and> valid_constraint ew0
      \<longrightarrow> chains (fst (snd (res, m', i'))) \<noteq> []
        \<and> fst (res, m', i') \<noteq> Inl ModelNotTrained \<and> fst (res, m', i') \<noteq> Inl InvalidStart
        \<and> fst (res, m', i') \<noteq> Inl InvalidEnd"
    using assms(1)
    by (induction rule: generate_induct
        [where P = "\<lambda>m sw0 ew0 i res.
            chains m \<noteq> [] \<and> valid_constraint sw0 \<and> valid_constraint ew0
            \<longrightarrow> chains (fst (snd res)) \<noteq> []
              \<and> fst res \<noteq> Inl ModelNotTrained \<and> fst res \<noteq> Inl InvalidStart
              \<and> fst res \<noteq> Inl InvalidEnd"])
      (auto dest: run_loop_invariants run_loop_raised simp: valid_constraint_norm)
  with assms(2-) show ?thesis by simp
qed

section \<open>Boundary markers\<close>

lemma letter_not_marker: "is_letter c \<Longrightarrow> c \<noteq> CHR ''^'' \<and> c \<noteq> CHR ''$''"
  by (auto simp: is_letter_def marker_codes)

lemma norm_valid_letters:
  assumes "valid_constraint s"
  shows "list_all is_letter (strip (lower s))"
proof (cases "strip (lower s) = []")
  case True
  then show ?thesis by simp
next
  case False
  with assms have "is_valid_name_part (strip (lower s))"
    by (simp add: valid_constraint_def)
  then show ?thesis
    by (simp add: is_valid_name_part_def strip_idem)
qed

lemma title_from_markers:
  "CHR ''^'' \<in> set (title_from b s) \<Longrightarrow> CHR ''^'' \<in> set s"
  "CHR ''$'' \<in> set (title_from b s) \<Longrightarrow> CHR ''$'' \<in> set s"
  by (induction s arbitrary: b)
    (auto simp: lower_char_marker title_char_marker split: if_splits)

lemma capitalize_markers:
  "CHR ''^'' \<notin> set name \<Longrightarrow> CHR ''$'' \<notin> set name
    \<Longrightarrow> CHR ''^'' \<notin> set (capitalize_name name) \<and> CHR ''$'' \<notin> set (capitalize_name name)"
  unfolding capitalize_name_def title_def
  by (blast dest: title_from_markers)

lemma run_loop_markers:
  assumes tgt: "no_start_target (chains m)"
    and sw: "CHR ''^'' \<notin> set sw" "CHR ''$'' \<notin> set sw"
    and run: "run_loop rand m mx mn sw i = (Finished name, m1, i1)"
  shows "CHR ''^'' \<notin> set name \<and> CHR ''$'' \<notin> set name"
proof -
  have "\<forall>n. Finished name = Finished n \<longrightarrow> CHR ''^'' \<notin> set n \<and> CHR ''$'' \<notin> set n"
    using run [unfolded run_loop_def]
  proof (induction rule: loop_rule
      [where Inv = "\<lambda>m' ctx name. m' = m \<and> CHR ''^'' \<notin> set name \<and> CHR ''$'' \<notin> set name"
         and Q = "\<lambda>ex m'. \<forall>n. ex = Finished n \<longrightarrow> CHR ''^'' \<notin> set n \<and> CHR ''$'' \<notin> set n"])
    case (keep m' ctx name i ctx' name' m1 i1)
    from keep(2) show ?case
    proof (cases rule: step_cases)
      case (append c)
      from choices_mem [OF append(2)] counter_of_mem [OF append(1)] tgt keep(1)
      have "c \<noteq> CHR ''^''"
        by (fastforce simp: no_start_target_def list_all_iff)
      with append keep(1) show ?thesis by simp
    qed (use keep(1) in auto)
  next
    case (exit m' ctx name i ex m1 i1)
    from exit(2) exit(1) show ?case
      by (cases rule: step_cases) auto
  qed (simp_all add: fst_seed sw)
  then show ?thesis by simp
qed

lemma generate_no_markers:
  assumes "generate rand m mx mn sw0 ew0 i = Some (Inr r, m', i')"
    and "no_start_target (chains m)"
  shows "CHR ''^'' \<notin> set r \<and> CHR ''$'' \<notin> set r"
proof -
  have "no_start_target (chains m) \<longrightarrow>
      no_start_target (chains (fst (snd (Inr r :: error + string, m', i')))) \<and>
      (\<forall>r'. fst (Inr r :: error + string, m', i') = Inr r'
         \<longrightarrow> CHR ''^'' \<notin> set r' \<and> CHR ''$'' \<notin> set r')"
    using assms(1)
  proof (induction rule: generate_induct
        [where P = "\<lambda>m sw0 ew0 i res. no_start_target (chains m) \<longrightarrow>
            no_start_target (chains (fst (snd res))) \<and>
            (\<forall>r. fst res = Inr r \<longrightarrow> CHR ''^'' \<notin> set r \<and> CHR ''$'' \<notin> set r)"])
    case (named m sw0 ew0 i name m1 i1)
    show ?case
    proof (intro impI)
      assume tgt: "no_start_target (chains m)"
      from norm_valid_letters [OF named(2)]
      have "CHR ''^'' \<notin> set (strip (lower sw0))" "CHR ''$'' \<notin> set (strip (lower sw0))"
        by (auto simp: list_all_iff dest: letter_not_marker)
      from run_loop_markers [OF tgt this named(4)] run_loop_invariants [OF named(4)] tgt
      show "no_start_target (chains (fst (snd (Inr (capitalize_name name), m1, i1)))) \<and>
        (\<forall>r. fst (Inr (capitalize_name name) :: error + string, m1, i1) = Inr r
           \<longrightarrow> CHR ''^'' \<notin> set r \<and> CHR ''$'' \<notin> set r)"
        by (simp add: capitalize_markers)
    qed
  qed (auto dest: run_loop_invariants)
  with assms(2) show ?thesis by simp
qed

section \<open>Length and termination\<close>

lemma generate_length:
  assumes "generate rand m mx mn sw0 ew0 i = Some (Inr r, m', i')"
  shows "int (length r) \<le> max mx (int (length (strip (lower sw0))))"
proof -
  have "\<forall>r'. fst (Inr r :: error + string, m', i') = Inr r'
      \<longrightarrow> int (length r') \<le> max mx (int (length (strip (lower sw0))))"
    using assms
    by (induction rule: generate_induct
        [where P = "\<lambda>m sw0 ew0 i res. \<forall>r. fst res = Inr r
            \<longrightarrow> int (length r) \<le> max mx (int (length (strip (lower sw0))))"])
      (auto simp: norm_idem length_capitalize dest: run_loop_length)
  then show ?thesis by simp
qed

lemma generate_returns:
  assumes mn: "mn \<le> 0" and sw: "strip (lower sw0) \<noteq> []" and ew: "strip (lower ew0) = []"
  shows "\<exists>res. generate rand m mx mn sw0 ew0 i = Some res"
proof -
  obtain ex m1 i1 where run: "run_loop rand m mx mn (strip (lower sw0)) i = (ex, m1, i1)"
    by (cases "run_loop rand m mx mn (strip (lower sw0)) i") auto
  show ?thesis
  proof (cases ex)
    case (Finished name)
    with run have "run_loop rand m mx mn (strip (lower sw0)) i = (Finished name, m1, i1)"
      by simp
    from run_loop_prefix [OF sw this] sw have "name \<noteq> []" by auto
    with Finished run ew show ?thesis
      by (subst generate.simps) simp
  next
    case Retry
    with run run_loop_no_retry [of mn "strip (lower sw0)" rand m mx i m1 i1] mn
    show ?thesis by simp
  next
    case (Raised e)
    with run sw ew show ?thesis
      by (subst generate.simps) simp
  qed
qed

section \<open>Invariants of training\<close>

text \<open>
  \<open>train\<close> keeps the table a dictionary whose keys have the length of the order, whose
  targets are never the start marker and, for positive weights, whose weights are
  positive.
\<close>

lemma set_update_subset: "set (AList.update k v al) \<subseteq> insert (k, v) (set al)"
  by (induction al) auto

lemma counter_of_entries: "q \<in> set (counter_of ch ctx) \<Longrightarrow> \<exists>p\<in>set ch. q \<in> set (snd p)"
  by (cases "map_of ch ctx") (auto simp: counter_of_def dest!: map_of_SomeD intro!: bexI)

lemma add_transition_entries:
  assumes "p \<in> set (add_transition w ctx c ch)"
  shows "p \<in> set ch \<or> p = (ctx, []) \<or>
    p = (ctx, AList.update c (count_of (counter_of ch ctx) c + w) (counter_of ch ctx))"
proof -
  have "set (getitem ch ctx) \<subseteq> insert (ctx, []) (set ch)"
    by (auto simp: getitem_def split: option.splits)
  with assms set_update_subset
    [of ctx "AList.update c (count_of (counter_of ch ctx) c + w) (counter_of ch ctx)"
        "getitem ch ctx"]
  show ?thesis
    by (auto simp: add_transition_def Let_def)
qed

lemma keys_ok_add_transition:
  "keys_ok k ch \<Longrightarrow> length ctx = k \<Longrightarrow> keys_ok k (add_transition w ctx c ch)"
  by (auto simp: keys_ok_def list_all_iff dest!: add_transition_entries)

lemma no_start_target_add_transition:
  assumes "no_start_target ch" and "c \<noteq> CHR ''^''"
  shows "no_start_target (add_transition w ctx c ch)"
proof -
  have "fst q \<noteq> CHR ''^''"
    if "q \<in> set (AList.update c v (counter_of ch ctx))" for q v
    using that set_update_subset [of c v "counter_of ch ctx"] assms
    by (auto simp: no_start_target_def list_all_iff dest!: counter_of_entries)
  with assms(1) show ?thesis
    by (auto simp: no_start_target_def list_all_iff dest!: add_transition_entries)
qed

lemma count_of_nonneg:
  assumes "\<forall>q\<in>set cnt. 0 < snd q"
  shows "0 \<le> count_of cnt c"
  using assms by (auto simp: count_of_def split: option.splits dest!: map_of_SomeD)

lemma pos_weights_add_transition:
  assumes "pos_weights ch" and "0 < w"
  shows "pos_weights (add_transition w ctx c ch)"
proof -
  have old: "\<forall>q\<in>set (counter_of ch ctx). 0 < snd q"
    using assms(1) by (auto simp: pos_weights_def list_all_iff dest!: counter_of_entries)
  have "0 < snd q"
    if "q \<in> set (AList.update c (count_of (counter_of ch ctx) c + w) (counter_of ch ctx))" for q
    using that set_update_subset
      [of c "count_of (counter_of ch ctx) c + w" "counter_of ch ctx"]
      old count_of_nonneg [OF old, of c] assms(2)
    by auto
  with assms(1) show ?thesis
    by (auto simp: pos_weights_def list_all_iff dest!: add_transition_entries)
qed

lemma distinct_counter_of:
  "distinct_keys ch \<Longrightarrow> distinct (map fst (counter_of ch ctx))"
  by (auto simp: distinct_keys_def counter_of_def list_all_iff split: option.splits
      dest!: map_of_SomeD)

lemma distinct_keys_add_transition:
  assumes "distinct_keys ch"
  shows "distinct_keys (add_transition w ctx c ch)"
proof -
  have "distinct (map fst (getitem ch ctx))"
    using assms
    by (auto simp: distinct_keys_def getitem_def map_of_eq_None_iff split: option.splits)
  then have "distinct (map fst (add_transition w ctx c ch))"
    by (simp add: add_transition_def Let_def distinct_update)
  moreover have "distinct (map fst (snd p))" if "p \<in> set (add_transition w ctx c ch)" for p
    using add_transition_entries [OF that] assms distinct_counter_of [OF assms, of ctx]
    by (auto simp: distinct_keys_def list_all_iff distinct_update)
  ultimately show ?thesis
    by (simp add: distinct_keys_def list_all_iff)
qed

lemma fold_invariant:
  "(\<And>x s. x \<in> set xs \<Longrightarrow> I s \<Longrightarrow> I (f x s)) \<Longrightarrow> I s \<Longrightarrow> I (fold f xs s)"
  by (induction xs arbitrary: s) auto

lemma add_windows_invariant:
  assumes step: "\<And>ctx c ch. length ctx = k \<Longrightarrow> c \<in> set (drop k padded) \<Longrightarrow> I ch
      \<Longrightarrow> I (add_transition w ctx c ch)"
    and "I ch"
  shows "I (add_windows k w padded ch)"
  unfolding add_windows_def
proof (rule fold_invariant [where I = I])
  fix i ch' assume i: "i \<in> set [0 ..< length padded - k]" and I: "I ch'"
  then have "length (take k (drop i padded)) = k" by auto
  moreover have "padded ! (i + k) \<in> set (drop k padded)"
    using i by (auto simp: in_set_conv_nth intro!: exI [of _ i] simp: add.commute)
  ultimately show "I (add_window k w padded i ch')"
    unfolding add_window_def using I by (rule step)
qed fact

lemma set_sub_spaces: "set (sub_spaces b s) \<subseteq> insert CHR '' '' (set s)"
  by (induction s arbitrary: b) auto

lemma lower_markers:
  "CHR ''^'' \<in> set (lower s) \<Longrightarrow> CHR ''^'' \<in> set s"
  "CHR ''$'' \<in> set (lower s) \<Longrightarrow> CHR ''$'' \<in> set s"
  by (auto simp: lower_def lower_char_marker)

lemma clean_name_chars:
  assumes "is_valid_name n"
  shows "\<forall>c\<in>set (sub_spaces False (strip n)). is_name_char c"
proof -
  have "is_name_char CHR '' ''"
    by (simp add: is_name_char_def is_space_def marker_codes)
  with assms set_sub_spaces [of False "strip n"] show ?thesis
    by (auto simp: is_valid_name_def list_all_iff)
qed

lemma clean_lower_markers:
  assumes "is_valid_name n"
  shows "CHR ''^'' \<notin> set (lower (clean_name n)) \<and> CHR ''$'' \<notin> set (lower (clean_name n))"
  using clean_name_chars [OF assms]
  by (auto simp: clean_name_def title_def dest!: lower_markers title_from_markers
      name_char_not_marker)

lemma drop_padded: "drop k (padded_name k clean) = lower clean @ ''$''"
  by (simp add: padded_name_def)

lemma train_example_invariants:
  assumes "keys_ok (order m) (chains m)" "no_start_target (chains m)" "distinct_keys (chains m)"
  shows "keys_ok (order (train_example ex m)) (chains (train_example ex m))"
    and "no_start_target (chains (train_example ex m))"
    and "distinct_keys (chains (train_example ex m))"
proof -
  let ?I = "\<lambda>ch. keys_ok (order m) ch \<and> no_start_target ch \<and> distinct_keys ch"
  have "?I (chains (train_example ex m))"
  proof (cases "is_valid_name (fst ex)")
    case False
    with assms show ?thesis by (simp add: train_example_def)
  next
    case True
    have "?I (add_windows (order m) (snd ex) (padded_name (order m) (clean_name (fst ex)))
        (chains m))"
    proof (rule add_windows_invariant [where I = ?I])
      fix ctx :: string and c ch
      assume "length ctx = order m"
        and c: "c \<in> set (drop (order m) (padded_name (order m) (clean_name (fst ex))))"
        and "?I ch"
      moreover from c clean_lower_markers [OF True] have "c \<noteq> CHR ''^''"
        by (auto simp: drop_padded)
      ultimately show "?I (add_transition (snd ex) ctx c ch)"
        by (simp add: keys_ok_add_transition no_start_target_add_transition
            distinct_keys_add_transition)
    qed (use assms in simp)
    with True show ?thesis by (simp add: train_example_def Let_def)
  qed
  then show "keys_ok (order (train_example ex m)) (chains (train_example ex m))"
    and "no_start_target (chains (train_example ex m))"
    and "distinct_keys (chains (train_example ex m))"
    by (simp_all add: order_train_example)
qed

lemma train_example_pos:
  assumes "pos_weights (chains m)" and "0 < snd ex"
  shows "pos_weights (chains (train_example ex m))"
proof (cases "is_valid_name (fst ex)")
  case False
  with assms show ?thesis by (simp add: train_example_def)
next
  case True
  have "pos_weights (add_windows (order m) (snd ex)
      (padded_name (order m) (clean_name (fst ex))) (chains m))"
    by (rule add_windows_invariant [where I = pos_weights])
      (use assms in \<open>simp_all add: pos_weights_add_transition\<close>)
  with True show ?thesis by (simp add: train_example_def Let_def)
qed

lemma fold_train_ok: "model_ok m \<Longrightarrow> model_ok (fold train_example exs m)"
  by (rule fold_invariant [where I = model_ok])
    (simp_all add: model_ok_def train_example_invariants)

lemma fold_train_pos:
  "pos_weights (chains m) \<Longrightarrow> \<forall>ex\<in>set exs. 0 < snd ex
    \<Longrightarrow> pos_weights (chains (fold train_example exs m))"
  by (rule fold_invariant [where I = "\<lambda>m. pos_weights (chains m)"])
    (simp_all add: train_example_pos)

lemma train_ok:
  assumes "train m ns weights = Inr m'" and "model_ok m"
  shows "model_ok m'"
proof -
  have "model_ok (m\<lparr>names := []\<rparr>)"
    using assms(2) by (simp add: model_ok_def)
  from fold_train_ok [OF this] assms(1) show ?thesis
    by (auto simp: train_def Let_def split: if_splits)
qed

lemma trained_ok: "trained m \<Longrightarrow> model_ok m"
proof (induction rule: trained.induct)
  case (first k ns weights m)
  have "model_ok (init k)"
    by (simp add: model_ok_def init_def keys_ok_def no_start_target_def distinct_keys_def)
  with first show ?case by (rule train_ok)
next
  case (again m ns weights m')
  from again(2) again(3) show ?case by (rule train_ok)
qed

lemma stored_weight:
  assumes "distinct_keys ch" and "(ctx, cnt) \<in> set ch" and "(c, w) \<in> set cnt"
  shows "weight_of ch ctx c = w"
proof -
  from assms(1,2) have "map_of ch ctx = Some cnt"
    by (simp add: distinct_keys_def)
  moreover from assms have "distinct (map fst cnt)"
    by (auto simp: distinct_keys_def list_all_iff)
  with assms(3) have "map_of cnt c = Some w" by simp
  ultimately show ?thesis
    by (simp add: weight_of_def counter_of_def count_of_def)
qed

lemma init_facts:
  "model_ok (init k)" "pos_weights (chains (init k))" "order (init k) = k"
  "weight_of (chains (init k)) ctx c = 0"
  by (simp_all add: model_ok_def init_def keys_ok_def no_start_target_def distinct_keys_def
      pos_weights_def weight_of_def counter_of_def count_of_def)

lemma invalid_name:
  assumes "c \<in> set n" and "\<not> is_name_char c"
  shows "\<not> is_valid_name n"
proof -
  from assms(2) have "\<not> is_space c" by (simp add: is_name_char_def)
  with assms(1) have "c \<in> set (strip n)" by (rule strip_keeps)
  with assms(2) show ?thesis by (auto simp: is_valid_name_def list_all_iff)
qed

section \<open>Runs on a concrete model\<close>

text \<open>
  The model trained on the one name \<open>Juha\<close> has one continuation for every context, so
  every random source produces the same run.
\<close>

lemma choices_single: "choices [(c, 1)] r = Inr c"
  by (simp add: choices_def float_limit_def bisect.simps)

lemma juha_loop:
  "run_loop rand juha_model 12 0 [] i = (Finished ''juha'', juha_model, i + 5)"
  by (simp add: run_loop_def seed_def juha_model_def step_def has_key_def counter_of_def
      getitem_def choices_single eval_nat_numeral Let_def)

lemma juha_trained: "train (init 2) [''Juha''] None = Inr juha_model"
  by code_simp

lemma juha_run_suffix:
  "generate zero_source juha_model 12 2 [] ''A'' 0 = Some (Inr ''Juha'', juha_model, 5)"
  by code_simp

lemma juha_run_prefix:
  "generate zero_source juha_model 12 2 ''Ju'' [] 0 = Some (Inr ''Juha'', juha_model, 3)"
  by code_simp

lemma juha_run_long_prefix:
  "generate zero_source juha_model 2 0 ''juha'' [] 0 = Some (Inr ''Juha'', juha_model, 0)"
  by code_simp

lemma untrained_run:
  "generate zero_source (init 2) 12 2 [] [] 0 = Some (Inl ModelNotTrained, init 2, 0)"
  by code_simp

lemma juha_argument_facts:
  "pos_weights (chains juha_model) \<and> chains juha_model \<noteq> [] \<and>
   valid_constraint [] \<and> valid_constraint ''A'' \<and> letters_only ''A'' \<and> letters_only ''Ju''"
  by code_simp

lemma juha_run_min0:
  "generate zero_source juha_model 12 0 ''Ju'' [] 0 = Some (Inr ''Juha'', juha_model, 3)"
  by code_simp

lemma norm_ju: "strip (lower ''Ju'') = ''ju''"
  by code_simp

lemma juha_facts:
  "chains juha_model \<noteq> []" "is_valid_name_part ''o''"
  "\<not> endswith (lower (capitalize_name ''juha'')) ''o''"
  "strip (lower []) = []" "strip (lower ''o'') = ''o''"
  by code_simp+

lemma juha_loop_0: "run_loop rand juha_model 0 0 [] i = (Finished [], juha_model, i)"
  by (simp add: run_loop_def seed_def)

lemma juha_suffix_diverges: "generate rand juha_model 12 0 [] ''o'' i = None"
proof (rule ccontr)
  assume "generate rand juha_model 12 0 [] ''o'' i \<noteq> None"
  then obtain res where "generate rand juha_model 12 0 [] ''o'' i = Some res"
    by auto
  then have "\<not> (juha_model = juha_model \<and> strip (lower []) = [] \<and> strip (lower ''o'') = ''o'')"
    by (induction rule: generate_induct
        [where P = "\<lambda>m sw0 ew0 i res.
            \<not> (m = juha_model \<and> strip (lower sw0) = [] \<and> strip (lower ew0) = ''o'')"])
       (auto simp: juha_loop norm_idem valid_constraint_def juha_facts)
  then show False by (simp add: juha_facts)
qed

lemma juha_zero_length_diverges: "generate rand juha_model 0 0 [] [] i = None"
proof (rule ccontr)
  assume "generate rand juha_model 0 0 [] [] i \<noteq> None"
  then obtain res where "generate rand juha_model 0 0 [] [] i = Some res"
    by auto
  then have "\<not> (juha_model = juha_model \<and> strip (lower []) = [] \<and> strip (lower []) = [])"
    by (induction rule: generate_induct
        [where P = "\<lambda>m sw0 ew0 i res.
            \<not> (m = juha_model \<and> strip (lower sw0) = [] \<and> strip (lower ew0) = [])"])
       (auto simp: juha_loop_0 norm_idem valid_constraint_def juha_facts)
  then show False by (simp add: juha_facts)
qed

lemma juha_is_trained: "trained juha_model"
  using juha_trained by (rule trained.first)

lemma letters_only_norm:
  assumes "letters_only s"
  shows "strip (lower s) = lower s" and "lower s \<noteq> []"
proof -
  have "\<forall>c\<in>set (lower s). \<not> is_space c"
    using assms
    by (auto simp: letters_only_def list_all_iff lower_def is_space_lower_char
        dest: letter_not_space)
  then show "strip (lower s) = lower s" by (rule strip_all)
  show "lower s \<noteq> []" using assms by (simp add: letters_only_def lower_def)
qed

lemma seed_context:
  assumes "0 < k"
  shows "snd (seed k sw) = drop (length sw) (replicate k CHR ''^'' @ sw)"
  using assms by (auto simp: seed_def)

lemma length_lower: "length (lower s) = length s"
  by (simp add: lower_def)

lemma norm_juha: "strip (lower ''juha'') = ''juha''" "strip (lower []) = []"
  by code_simp+

section \<open>The start context of a trained model\<close>

text \<open>
  For an order of at least 1 the start context of a trained model is followed by the
  first character of a name, never by the end marker: a run without prefix does not
  end with an empty name.
\<close>

lemma counter_of_add_transition:
  "counter_of (add_transition w ctx c ch) ctx' =
     (if ctx' = ctx then AList.update c (count_of (counter_of ch ctx) c + w) (counter_of ch ctx)
      else counter_of ch ctx')"
  by (auto simp: add_transition_def Let_def counter_of_def update_conv' map_of_getitem
      split: option.splits)

lemma add_transition_nonempty: "add_transition w ctx c ch \<noteq> []"
  by (simp add: add_transition_def Let_def)

lemma start_ok_add_transition:
  assumes "start_ok k ch"
    and "ctx = replicate k CHR ''^'' \<longrightarrow> c \<noteq> CHR ''$''"
    and "ch = [] \<longrightarrow> ctx = replicate k CHR ''^''"
  shows "start_ok k (add_transition w ctx c ch)"
proof (cases "ctx = replicate k CHR ''^''")
  case True
  have "fst q \<noteq> CHR ''$''"
    if "q \<in> set (AList.update c v (counter_of ch ctx))" for q v
    using that set_update_subset [of c v "counter_of ch ctx"] assms(1,2) True
    by (auto simp: start_ok_def list_all_iff)
  with True show ?thesis
    by (auto simp: start_ok_def counter_of_add_transition list_all_iff)
next
  case False
  with assms show ?thesis
    by (auto simp: start_ok_def counter_of_add_transition add_transition_nonempty)
qed

lemma sub_spaces_nonempty: "s \<noteq> [] \<Longrightarrow> sub_spaces False s \<noteq> []"
  by (cases s) auto

lemma clean_lower_nonempty:
  assumes "is_valid_name n"
  shows "lower (clean_name n) \<noteq> []"
proof -
  from assms have "sub_spaces False (strip n) \<noteq> []"
    by (simp add: is_valid_name_def sub_spaces_nonempty)
  then have "length (lower (clean_name n)) \<noteq> 0"
    by (simp add: length_lower clean_name_def title_def length_title_from)
  then show ?thesis by auto
qed

lemma start_ok_add_windows:
  assumes ok: "start_ok k ch" and k: "0 < k"
    and low: "low \<noteq> []" "CHR ''^'' \<notin> set low" "CHR ''$'' \<notin> set low"
  shows "start_ok k (add_windows k w (replicate k CHR ''^'' @ low @ ''$'') ch)"
proof -
  let ?start = "replicate k CHR ''^''"
  let ?p = "?start @ low @ ''$''"
  have target: "?p ! (i + k) = (low @ ''$'') ! i" for i
    by (simp add: nth_append)
  have not_end: "take k (drop i ?p) = ?start \<longrightarrow> ?p ! (i + k) \<noteq> CHR ''$''"
    if "i < Suc (length low)" for i
  proof (cases "i < length low")
    case True
    then have "?p ! (i + k) \<in> set low"
      by (simp add: target nth_append)
    with low(3) show ?thesis by auto
  next
    case False
    with that have i: "i = length low" by simp
    have len: "0 < length low"
      using low(1) by simp
    have "take k (drop i ?p) ! (k - 1) = drop i ?p ! (k - 1)"
      by (rule nth_take) (use k in simp)
    also have "\<dots> = ?p ! (i + (k - 1))"
      by (rule nth_drop) (simp add: i)
    also have "i + (k - 1) = k + (length low - 1)"
      using k i len by linarith
    also have "?p ! (k + (length low - 1)) = (low @ ''$'') ! (length low - 1)"
      using nth_append_length_plus [of ?start "low @ ''$''" "length low - 1"] by simp
    also have "\<dots> = low ! (length low - 1)"
      using len by (simp add: nth_append)
    also have "\<dots> \<in> set low"
      using len by simp
    finally have "take k (drop i ?p) ! (k - 1) \<noteq> CHR ''^''"
      using low(2) by auto
    moreover have "?start ! (k - 1) = CHR ''^''"
      using k by simp
    ultimately show ?thesis by auto
  qed
  have first: "take k (drop 0 ?p) = ?start"
    by simp
  have "length ?p - k = Suc (length low)"
    by simp
  then have range: "[0 ..< length ?p - k] = 0 # [Suc 0 ..< Suc (length low)]"
    using upt_conv_Cons [of 0 "Suc (length low)"] by (simp del: upt_Suc)
  let ?ch1 = "add_window k w ?p 0 ch"
  have ch1: "start_ok k ?ch1" "?ch1 \<noteq> []"
    unfolding add_window_def
    using start_ok_add_transition [OF ok, of "take k (drop 0 ?p)" "?p ! (0 + k)" w]
      not_end [of 0] first
    by (simp_all add: add_transition_nonempty)
  have "start_ok k (fold (add_window k w ?p) js ch') \<and> fold (add_window k w ?p) js ch' \<noteq> []"
    if "set js \<subseteq> {..< Suc (length low)}" "start_ok k ch'" "ch' \<noteq> []" for js ch'
    using that
  proof (induction js arbitrary: ch')
    case Nil
    then show ?case by simp
  next
    case (Cons j js)
    from Cons.prems have j: "j < Suc (length low)" by simp
    have "start_ok k (add_window k w ?p j ch')"
      unfolding add_window_def
      using start_ok_add_transition [OF Cons.prems(2), of "take k (drop j ?p)" "?p ! (j + k)" w]
        not_end [OF j] Cons.prems(3)
      by simp
    moreover have "add_window k w ?p j ch' \<noteq> []"
      by (simp add: add_window_def add_transition_nonempty)
    ultimately show ?case
      using Cons.IH [of "add_window k w ?p j ch'"] Cons.prems(1) by simp
  qed
  note tail = this
  have "set [Suc 0 ..< Suc (length low)] \<subseteq> {..< Suc (length low)}"
    by auto
  from tail [OF this ch1]
  have "start_ok k (fold (add_window k w ?p) [Suc 0 ..< Suc (length low)] ?ch1)"
    by (rule conjunct1)
  then show ?thesis
    unfolding add_windows_def range fold_simps o_apply .
qed

lemma start_ok_train_example:
  assumes "start_ok (order m) (chains m)" and "0 < order m"
  shows "start_ok (order m) (chains (train_example ex m))"
proof (cases "is_valid_name (fst ex)")
  case False
  with assms show ?thesis by (simp add: train_example_def)
next
  case True
  from start_ok_add_windows [OF assms clean_lower_nonempty [OF True]]
    clean_lower_markers [OF True] True
  show ?thesis
    by (simp add: train_example_def Let_def padded_name_def)
qed

lemma start_ok_fold_train:
  assumes "start_ok (order m) (chains m)" and "0 < order m"
  shows "start_ok (order m) (chains (fold train_example exs m))"
proof -
  have "start_ok (order (fold train_example exs m)) (chains (fold train_example exs m)) \<and>
      0 < order (fold train_example exs m)"
    by (rule fold_invariant [where I = "\<lambda>m. start_ok (order m) (chains m) \<and> 0 < order m"])
      (use assms in \<open>simp_all add: start_ok_train_example order_train_example\<close>)
  then show ?thesis by (simp add: order_fold_train)
qed

lemma train_order: "train m ns weights = Inr m' \<Longrightarrow> order m' = order m"
  by (auto simp: train_def Let_def order_fold_train split: if_splits)

lemma trained_start_ok: "trained m \<Longrightarrow> 0 < order m \<Longrightarrow> start_ok (order m) (chains m)"
proof (induction rule: trained.induct)
  case (first k ns weights m)
  from first(1) have m: "m = fold train_example (zip ns (default_weights ns weights))
      ((init k)\<lparr>names := []\<rparr>)"
    by (auto simp: train_def Let_def split: if_splits)
  from first train_order [OF first(1)] have k: "0 < k" by (simp add: init_def)
  have "start_ok (order ((init k)\<lparr>names := []\<rparr>)) (chains ((init k)\<lparr>names := []\<rparr>))"
    by (simp add: init_def start_ok_def counter_of_def)
  from start_ok_fold_train [OF this] k train_order [OF first(1)] show ?case
    by (simp add: m init_def)
next
  case (again m ns weights m')
  from again(2) have m': "m' = fold train_example (zip ns (default_weights ns weights))
      (m\<lparr>names := []\<rparr>)"
    by (auto simp: train_def Let_def split: if_splits)
  from again train_order [OF again(2)] have "start_ok (order m) (chains m)" "0 < order m"
    by simp_all
  then have "start_ok (order (m\<lparr>names := []\<rparr>)) (chains (m\<lparr>names := []\<rparr>))"
    "0 < order (m\<lparr>names := []\<rparr>)"
    by simp_all
  from start_ok_fold_train [OF this] train_order [OF again(2)] show ?case
    by (simp add: m')
qed

lemma loop_nonempty:
  assumes mn: "mn \<le> 0" and name: "name \<noteq> []"
    and run: "loop rand mn sw n m ctx name i = (ex, m', i')"
  shows "(\<exists>e. ex = Raised e) \<or> (\<exists>name'. ex = Finished name' \<and> name' \<noteq> [])"
  using run
proof (induction rule: loop_rule
    [where Inv = "\<lambda>m ctx name. name \<noteq> []"
       and Q = "\<lambda>ex m. (\<exists>e. ex = Raised e) \<or> (\<exists>name'. ex = Finished name' \<and> name' \<noteq> [])"])
  case (keep m ctx name i ctx' name' m1 i1)
  from keep(2) keep(1) mn show ?case
    by (cases rule: step_cases) auto
next
  case (exit m ctx name i ex m1 i1)
  from exit(2) exit(1) mn show ?case
    by (cases rule: step_cases) auto
qed (simp_all add: name)

lemma run_loop_from_start:
  assumes ok: "start_ok (order m) (chains m)" and tr: "chains m \<noteq> []"
    and mn: "mn \<le> 0" and mx: "1 \<le> mx"
    and run: "run_loop rand m mx mn [] i = (ex, m', i')"
  shows "(\<exists>e. ex = Raised e) \<or> (\<exists>name'. ex = Finished name' \<and> name' \<noteq> [])"
proof -
  let ?start = "replicate (order m) CHR ''^''"
  from mx obtain n where n: "nat mx = Suc n"
    by (cases "nat mx") auto
  from ok tr have cnt: "counter_of (chains m) ?start \<noteq> []"
    and no_end: "\<forall>q\<in>set (counter_of (chains m) ?start). fst q \<noteq> CHR ''$''"
    by (auto simp: start_ok_def list_all_iff)
  from cnt have key: "has_key (chains m) ?start"
    by (auto simp: counter_of_def has_key_def split: option.splits)
  obtain r m1 i1 where st: "step rand mn [] m ?start [] i = (r, m1, i1)"
    by (cases "step rand mn [] m ?start [] i") auto
  from run n st have run': "(case r of Inl ex \<Rightarrow> (ex, m1, i1)
      | Inr (ctx', name') \<Rightarrow> loop rand mn [] n m1 ctx' name' i1) = (ex, m', i')"
    by (simp add: run_loop_def seed_def split: prod.splits sum.splits)
  from st show ?thesis
  proof (cases rule: step_cases)
    case (raised e)
    with run' show ?thesis by auto
  next
    case (append c)
    with run' have "loop rand mn [] n m1 (tl ?start @ [c]) [c] i1 = (ex, m', i')"
      by simp
    from loop_nonempty [OF mn _ this] show ?thesis by simp
  next
    case end_ok
    with choices_mem [OF end_ok(2)] no_end show ?thesis by force
  next
    case end_retry
    then show ?thesis by simp
  next
    case end_reset
    with choices_mem [OF end_reset(2)] no_end show ?thesis by force
  qed (use key cnt in auto)
qed

lemma generate_returns_from_start:
  assumes ok: "start_ok (order m) (chains m)"
    and mn: "mn \<le> 0" and mx: "1 \<le> mx"
    and sw: "strip (lower sw0) = []" and ew: "strip (lower ew0) = []"
  shows "\<exists>res. generate rand m mx mn sw0 ew0 i = Some res"
proof (cases "chains m = []")
  case True
  then show ?thesis by (subst generate.simps) simp
next
  case False
  obtain ex m1 i1 where run: "run_loop rand m mx mn [] i = (ex, m1, i1)"
    by (cases "run_loop rand m mx mn [] i") auto
  from run_loop_from_start [OF ok False mn mx run] run False sw ew show ?thesis
    by (subst generate.simps) auto
qed

section \<open>The claims\<close>

subsection \<open>C1: backoff to a shorter context\<close>

text \<open>
  Claim C1: in \<open>generate\<close>, a context that is absent from the table but has a strict
  suffix in the table continues with a character drawn from the longest such suffix,
  instead of stopping.

  The code looks for the suffix (\<open>_try_alternative_context\<close>) but keeps only the
  answer: the lookup that follows still uses the absent context, which inserts an empty
  counter under it and ends the loop. Below, the model trained on \<open>ab\<close> with order 1 is
  given order 2, so that the context \<open>^a\<close> of the prefix \<open>a\<close> is absent while its suffix
  \<open>a\<close> is a key with the single continuation \<open>b\<close>: \<open>generate\<close> returns \<open>A\<close>, has drawn
  nothing from the random source, and has added the key \<open>^a\<close> to the table.
\<close>

theorem backoff_context_not_adopted:
  "train (init 1) [''ab''] None = Inr ab_model \<and>
   \<not> has_key (chains (ab_model\<lparr>order := 2\<rparr>)) ''^a'' \<and>
   try_alternative_context (chains (ab_model\<lparr>order := 2\<rparr>)) ''^a'' \<and>
   counter_of (chains (ab_model\<lparr>order := 2\<rparr>)) ''a'' = [(CHR ''b'', 1)] \<and>
   generate zero_source (ab_model\<lparr>order := 2\<rparr>) 12 0 ''a'' [] 0 =
     Some (Inr ''A'', ab_model\<lparr>order := 2, chains := chains ab_model @ [(''^a'', [])]\<rparr>, 0)"
  by code_simp

subsection \<open>C2: generate does not change the table\<close>

text \<open>
  Claim C2: for every trained model, every call of \<open>generate\<close> that returns (a string or
  an exception) leaves the transition table as it was. All keys of a trained model have
  the length of the order, so the search for a shorter context never succeeds and the
  lookup of an absent context, the only place where \<open>generate\<close> writes, is never reached.
\<close>

theorem generate_leaves_table_unchanged:
  assumes "trained m" and "generate rand m mx mn p s i = Some (res, m', i')"
  shows "chains m' = chains m"
proof -
  from assms(1) have "keys_ok (order m) (chains m)"
    by (auto dest: trained_ok simp: model_ok_def)
  with assms(2) have "m' = m" by (rule generate_same_model)
  then show ?thesis by simp
qed

theorem generate_leaves_table_unchanged_witness:
  "trained juha_model \<and>
   generate zero_source juha_model 12 2 [] ''A'' 0 = Some (Inr ''Juha'', juha_model, 5) \<and>
   chains (fst (snd (Inr ''Juha'' :: error + string, juha_model, 5 :: nat))) = chains juha_model"
  using generate_leaves_table_unchanged [OF juha_is_trained juha_run_suffix]
    juha_is_trained juha_run_suffix
  by simp

subsection \<open>C3: training twice\<close>

text \<open>
  Claim C3: calling \<open>train\<close> twice with the same corpus gives the same table and the same
  list of names as calling it once.

  \<open>train\<close> resets \<open>self.names\<close> and not \<open>self.chains\<close>: the second call adds every weight
  again. Trained twice on \<open>ab\<close>, the model holds the names of one call and the weights
  of two.
\<close>

theorem retrain_accumulates_weights:
  "train (init 1) [''ab''] None = Inr ab_model \<and>
   train ab_model [''ab''] None =
     Inr (ab_model\<lparr>chains := [(''^'', [(CHR ''a'', 2)]), (''a'', [(CHR ''b'', 2)]),
                               (''b'', [(CHR ''$'', 2)])]\<rparr>)"
  by code_simp

subsection \<open>C4: minimum length 0\<close>

text \<open>
  Claim C4: with \<open>min_length = 0\<close> and \<open>max_length = M\<close>, \<open>generate\<close> always returns, and
  returns a string of length at most \<open>M\<close>, for every valid prefix and suffix, also for a
  prefix longer than \<open>M\<close>.

  The code has no bound on its retries. On the model trained on \<open>Juha\<close> with order 2,
  every run with the suffix \<open>o\<close> produces \<open>Juha\<close> and is retried, and with \<open>M = 0\<close> and no
  prefix every run produces the empty name and is retried: neither call returns.
\<close>

theorem generate_min0_counterexample:
  "train (init 2) [''Juha''] None = Inr juha_model \<and>
   generate zero_source juha_model 12 0 [] ''o'' 0 = None \<and>
   generate zero_source juha_model 0 0 [] [] 0 = None"
  by (simp add: juha_trained juha_suffix_diverges juha_zero_length_diverges)

text \<open>
  Claim C4 as amended: with \<open>min_length = 0\<close>, \<open>max_length = M\<close> and a prefix (lowercased
  and stripped) that is no longer than \<open>M\<close>, every string that \<open>generate\<close> returns has
  length at most \<open>M\<close>; and without a suffix the call returns, for every random source,
  whenever a prefix is given, or the model is trained, of order at least 1, and \<open>M\<close> is
  at least 1. Nothing is said about a prefix longer than \<open>M\<close>.
\<close>

theorem generate_min0_bounded:
  "int (length (strip (lower p))) \<le> M \<longrightarrow>
   (generate rand m M 0 p s i = Some (Inr r, m', i') \<longrightarrow> int (length r) \<le> M) \<and>
   (strip (lower s) = [] \<and>
    (strip (lower p) \<noteq> [] \<or> (trained m \<and> 0 < order m \<and> 1 \<le> M))
      \<longrightarrow> (\<exists>res. generate rand m M 0 p s i = Some res))"
proof (intro conjI impI)
  assume "int (length (strip (lower p))) \<le> M"
    and "generate rand m M 0 p s i = Some (Inr r, m', i')"
  then show "int (length r) \<le> M"
    using generate_length [of rand m M 0 p s i r m' i'] by simp
next
  assume a: "strip (lower s) = [] \<and>
    (strip (lower p) \<noteq> [] \<or> (trained m \<and> 0 < order m \<and> 1 \<le> M))"
  show "\<exists>res. generate rand m M 0 p s i = Some res"
  proof (cases "strip (lower p) = []")
    case False
    with a show ?thesis by (intro generate_returns) simp_all
  next
    case True
    with a have "start_ok (order m) (chains m)" "1 \<le> M"
      by (simp_all add: trained_start_ok)
    with a True show ?thesis by (intro generate_returns_from_start) simp_all
  qed
qed

theorem generate_min0_bounded_witness:
  "int (length (strip (lower ''Ju''))) \<le> 12 \<and>
   generate zero_source juha_model 12 0 ''Ju'' [] 0 = Some (Inr ''Juha'', juha_model, 3) \<and>
   int (length ''Juha'') \<le> 12 \<and>
   strip (lower []) = [] \<and> strip (lower ''Ju'') \<noteq> [] \<and>
   (\<exists>res. generate zero_source juha_model 12 0 ''Ju'' [] 0 = Some res) \<and>
   int (length (strip (lower []))) \<le> 12 \<and>
   trained juha_model \<and> 0 < order juha_model \<and> (1::int) \<le> 12 \<and>
   (\<exists>res. generate zero_source juha_model 12 0 [] [] 0 = Some res)"
  using generate_min0_bounded
      [of "''Ju''" 12 zero_source juha_model "[]" 0 "''Juha''" juha_model 3]
    generate_min0_bounded [of "[]" 12 zero_source juha_model "[]" 0]
    juha_run_min0 juha_is_trained
  by (simp add: norm_juha norm_ju juha_model_def)

text \<open>
  The prefix longer than \<open>M\<close> is where the code departs from its own documentation
  (\<open>max_length: Maximum length of generated name\<close>): the range of the loop is empty and the
  prefix is returned whole.
\<close>

lemma long_prefix_exceeds_max_length:
  "generate zero_source juha_model 2 0 ''juha'' [] 0 = Some (Inr ''Juha'', juha_model, 0) \<and>
   \<not> int (length ''Juha'') \<le> 2"
  by (simp add: juha_run_long_prefix)

subsection \<open>C5: the required suffix\<close>

text \<open>
  Claim C5: whenever \<open>generate\<close> is called with a non-empty valid suffix and returns a
  string, the string ends with the suffix, case-insensitively. (A name that does not is
  never returned: the call is made again with the same arguments.)
\<close>

theorem generated_name_ends_with_suffix:
  assumes "letters_only s" and "generate rand m mx mn p s i = Some (Inr r, m', i')"
  shows "endswith (lower r) (lower s)"
  using generate_endswith [OF assms(2)] letters_only_norm [OF assms(1)] by simp

theorem generated_name_ends_with_suffix_witness:
  "letters_only ''A'' \<and>
   generate zero_source juha_model 12 2 [] ''A'' 0 = Some (Inr ''Juha'', juha_model, 5) \<and>
   endswith (lower ''Juha'') (lower ''A'')"
  using generated_name_ends_with_suffix [OF _ juha_run_suffix] juha_run_suffix
    juha_argument_facts
  by simp

subsection \<open>C6: the required prefix\<close>

text \<open>
  Claim C6: whenever \<open>generate\<close> is called with a non-empty valid prefix and returns a
  string, the string starts with the prefix, case-insensitively; the name in progress
  starts as the prefix, and the initial context is the last \<open>k\<close> characters of the
  prefix, padded on the left with start markers when the prefix is shorter than \<open>k\<close>
  (for an order \<open>k\<close> of at least 1, as the data model requires).
\<close>

theorem generated_name_starts_with_prefix:
  assumes "letters_only p" and "generate rand m mx mn p s i = Some (Inr r, m', i')"
  shows "startswith (lower r) (lower p) \<and>
    fst (seed (order m) (strip (lower p))) = lower p \<and>
    (0 < order m \<longrightarrow>
       snd (seed (order m) (strip (lower p))) =
         drop (length p) (replicate (order m) CHR ''^'' @ lower p))"
  using generate_startswith [OF assms(2)] letters_only_norm [OF assms(1)]
  by (simp add: fst_seed seed_context length_lower)

theorem generated_name_starts_with_prefix_witness:
  "letters_only ''Ju'' \<and>
   generate zero_source juha_model 12 2 ''Ju'' [] 0 = Some (Inr ''Juha'', juha_model, 3) \<and>
   startswith (lower ''Juha'') (lower ''Ju'') \<and>
   0 < order juha_model \<and>
   snd (seed (order juha_model) (strip (lower ''Ju''))) =
     drop (length ''Ju'') (replicate (order juha_model) CHR ''^'' @ lower ''Ju'')"
  using generated_name_starts_with_prefix [OF _ juha_run_prefix] juha_run_prefix
    juha_argument_facts
  by (simp add: juha_model_def)

subsection \<open>C7: keys and weights after training\<close>

text \<open>
  Claim C7: after \<open>train\<close> on a corpus with positive weights, every key of the table has
  length \<open>k\<close>, and every stored weight is positive and equal to the sum of the weights
  of the examples whose padded form contains the window.

  The loop adds the weight of an example once for every position of the window, so a
  window that occurs twice in one name counts twice: in \<open>Lulu\<close> with order 1 the window
  \<open>l\<close>, \<open>u\<close> occurs twice, and with weight 1 the table holds 2 where the sum of the
  weights of the examples that contain the window is 1.
\<close>

theorem repeated_window_counted_twice:
  "train (init 1) [''Lulu''] (Some [1]) = Inr lulu_model \<and>
   (''l'', [(CHR ''u'', 2)]) \<in> set (chains lulu_model) \<and>
   claimed_weight 1 [(''Lulu'', 1)] ''l'' CHR ''u'' = 1"
  by code_simp

text \<open>
  Claim C7 as amended: after \<open>train\<close> on a new model and a corpus with positive weights,
  every key of the table has length \<open>k\<close>, and every stored weight is positive and equal
  to the sum, over the valid examples, of the weight of the example times the number of
  positions at which the window occurs in its padded form.
\<close>

theorem train_table_weights:
  assumes "train (init k) ns weights = Inr m"
    and "list_all (\<lambda>w. 0 < w) (default_weights ns weights)"
  shows "keys_ok k (chains m) \<and>
    (\<forall>ctx cnt c w. (ctx, cnt) \<in> set (chains m) \<longrightarrow> (c, w) \<in> set cnt \<longrightarrow>
       0 < w \<and> w = expected_weight k (zip ns (default_weights ns weights)) ctx c)"
proof -
  let ?exs = "zip ns (default_weights ns weights)"
  let ?m0 = "(init k)\<lparr>names := []\<rparr>"
  from assms(1) have m: "m = fold train_example ?exs ?m0"
    by (auto simp: train_def Let_def split: if_splits)
  have ok0: "model_ok ?m0" and pos0: "pos_weights (chains ?m0)"
    using init_facts(1,2) [of k] by (simp_all add: model_ok_def)
  from fold_train_ok [OF ok0] have ok: "model_ok m"
    unfolding m .
  have "\<forall>ex\<in>set ?exs. 0 < snd ex"
    using assms(2) by (auto simp: list_all_iff dest: set_zip_rightD)
  from fold_train_pos [OF pos0 this] have pos: "pos_weights (chains m)"
    unfolding m .
  have weight: "weight_of (chains m) ctx c = expected_weight k ?exs ctx c" for ctx c
    unfolding m using init_facts(3,4) [of k]
    by (simp add: weight_of_fold_train)
  have "0 < w \<and> w = expected_weight k ?exs ctx c"
    if "(ctx, cnt) \<in> set (chains m)" "(c, w) \<in> set cnt" for ctx cnt c w
  proof
    from pos that show "0 < w"
      by (fastforce simp: pos_weights_def list_all_iff)
    from ok have "distinct_keys (chains m)" by (simp add: model_ok_def)
    from stored_weight [OF this that] weight show "w = expected_weight k ?exs ctx c"
      by simp
  qed
  moreover from ok order_fold_train [of ?exs ?m0] have "keys_ok k (chains m)"
    by (simp add: model_ok_def m init_facts)
  ultimately show ?thesis by blast
qed

theorem train_table_weights_witness:
  "train (init 1) [''Lulu''] (Some [1]) = Inr lulu_model \<and>
   list_all (\<lambda>w. 0 < w) (default_weights [''Lulu''] (Some [1])) \<and>
   keys_ok 1 (chains lulu_model) \<and>
   (''l'', [(CHR ''u'', 2)]) \<in> set (chains lulu_model) \<and>
   (0::int) < 2 \<and>
   2 = expected_weight 1 (zip [''Lulu''] (default_weights [''Lulu''] (Some [1]))) ''l'' CHR ''u''"
proof -
  have tr: "train (init 1) [''Lulu''] (Some [1]) = Inr lulu_model"
    and pos: "list_all (\<lambda>w. 0 < w) (default_weights [''Lulu''] (Some [1]))"
    and mem: "(''l'', [(CHR ''u'', 2)]) \<in> set (chains lulu_model)"
    by code_simp+
  from train_table_weights [OF tr pos] mem tr pos show ?thesis
    by auto
qed

subsection \<open>C8: the error of an untrained model\<close>

text \<open>
  Claim C8: \<open>generate\<close> raises \<open>ModelNotTrained\<close> if and only if the table is empty; with
  a table that is not empty and a valid prefix and suffix, no error is raised.

  \<open>train\<close> takes any integer as a weight, and the weighted draw raises for a total that
  is not positive: trained on \<open>ab\<close> with weight 0, the table is not empty and \<open>generate\<close>
  without prefix and suffix raises the \<open>ValueError\<close> of \<open>random.choices\<close>.
\<close>

theorem zero_weight_raises:
  "train (init 1) [''ab''] (Some [0]) = Inr zero_model \<and>
   chains zero_model \<noteq> [] \<and> valid_constraint [] \<and>
   generate zero_source zero_model 12 2 [] [] 0 = Some (Inl ChoicesError, zero_model, 0)"
  by code_simp

text \<open>
  Claim C8 as amended: \<open>generate\<close> raises \<open>ModelNotTrained\<close> if and only if the table is
  empty; with a table that is not empty and a valid prefix and suffix, it raises none of
  its own errors, neither \<open>ModelNotTrained\<close> nor the error of an invalid prefix or suffix.
  (What the weighted draw raises, and a recursion without end, are not excluded.)
\<close>

theorem model_not_trained_iff:
  "((\<exists>m' i'. generate rand m mx mn p s i = Some (Inl ModelNotTrained, m', i'))
      \<longleftrightarrow> chains m = []) \<and>
   (chains m \<noteq> [] \<longrightarrow> valid_constraint p \<longrightarrow> valid_constraint s
      \<longrightarrow> generate rand m mx mn p s i = Some (res, m', i')
      \<longrightarrow> res \<noteq> Inl ModelNotTrained \<and> res \<noteq> Inl InvalidStart \<and> res \<noteq> Inl InvalidEnd)"
proof (intro conjI iffI impI)
  assume "\<exists>m' i'. generate rand m mx mn p s i = Some (Inl ModelNotTrained, m', i')"
  then show "chains m = []"
    using generate_not_untrained by blast
next
  assume "chains m = []"
  then show "\<exists>m' i'. generate rand m mx mn p s i = Some (Inl ModelNotTrained, m', i')"
    by (subst generate.simps) simp
next
  assume a: "chains m \<noteq> []" "valid_constraint p" "valid_constraint s"
    "generate rand m mx mn p s i = Some (res, m', i')"
  from generate_own_errors [OF a(4) a(1) a(2) a(3)]
  show "res \<noteq> Inl ModelNotTrained" "res \<noteq> Inl InvalidStart" "res \<noteq> Inl InvalidEnd"
    by simp_all
qed

theorem model_not_trained_iff_witness:
  "chains (init 2) = [] \<and>
   generate zero_source (init 2) 12 2 [] [] 0 = Some (Inl ModelNotTrained, init 2, 0) \<and>
   chains zero_model \<noteq> [] \<and> valid_constraint [] \<and>
   generate zero_source zero_model 12 2 [] [] 0 = Some (Inl ChoicesError, zero_model, 0) \<and>
   (Inl ChoicesError :: error + string) \<noteq> Inl ModelNotTrained \<and>
   (Inl ChoicesError :: error + string) \<noteq> Inl InvalidStart \<and>
   (Inl ChoicesError :: error + string) \<noteq> Inl InvalidEnd"
proof -
  have run: "generate zero_source zero_model 12 2 [] [] 0 =
      Some (Inl ChoicesError, zero_model, 0)"
    and facts: "chains zero_model \<noteq> []" "valid_constraint []"
    by code_simp+
  from model_not_trained_iff [of zero_source "init 2" 12 2 "[]" "[]" 0]
    model_not_trained_iff
      [of zero_source zero_model 12 2 "[]" "[]" 0 "Inl ChoicesError" zero_model 0]
    run facts untrained_run
  show ?thesis by (simp add: init_def)
qed

subsection \<open>C9: invalid names are skipped\<close>

text \<open>
  Claim C9: \<open>train\<close> never raises because of an example whose name has a character
  outside the alphabet of letters, space, hyphen and apostrophe; the example is skipped,
  adding nothing to the table or to the names, and the other examples are processed.

  The class that the code tests has \<open>\s\<close>, every whitespace character, where the claim
  has the space: a name with a tab inside is valid, and trained as \<open>A B\<close>.
\<close>

theorem whitespace_name_not_skipped:
  "\<not> claimed_alphabet (CHR 0x09) \<and> CHR 0x09 \<in> set tab_name \<and>
   train (init 1) [tab_name] (Some [3]) =
     Inr \<lparr>order = 1,
          chains = [(''^'', [(CHR ''a'', 3)]), (''a'', [(CHR '' '', 3)]),
                    ('' '', [(CHR ''b'', 3)]), (''b'', [(CHR ''$'', 3)])],
          names = [''A B'']\<rparr>"
  by code_simp

text \<open>
  Claim C9 as amended: \<open>train\<close> never raises because of an example whose name has a
  character outside the alphabet of letters, whitespace characters, hyphen and
  apostrophe; the example is skipped, adding nothing to the table or to the names, and
  the other examples are processed: training with the example is training without it.
\<close>

theorem invalid_example_skipped:
  assumes "c \<in> set n" and "\<not> is_name_char c"
  shows "train m (map fst (xs @ (n, w) # ys)) (Some (map snd (xs @ (n, w) # ys))) =
      train m (map fst (xs @ ys)) (Some (map snd (xs @ ys))) \<and>
    (\<exists>m'. train m (map fst (xs @ (n, w) # ys)) (Some (map snd (xs @ (n, w) # ys))) = Inr m')"
proof -
  have "train_example (n, w) m' = m'" for m'
    using invalid_name [OF assms] by (simp add: train_example_def)
  then show ?thesis
    by (simp add: train_def default_weights_def zip_map_fst_snd)
qed

theorem invalid_example_skipped_witness:
  "CHR ''1'' \<in> set ''x1'' \<and> \<not> is_name_char CHR ''1'' \<and>
   train (init 2) (map fst ([(''Juha'', 1 :: int)] @ (''x1'', 5) # []))
       (Some (map snd ([(''Juha'', 1)] @ (''x1'', 5) # []))) =
     train (init 2) (map fst ([(''Juha'', 1 :: int)] @ []))
       (Some (map snd ([(''Juha'', 1)] @ []))) \<and>
   train (init 2) [''Juha'', ''x1''] (Some [1, 5]) = Inr juha_model"
proof -
  have c: "CHR ''1'' \<in> set ''x1''" and bad: "\<not> is_name_char CHR ''1''"
    and tr: "train (init 2) [''Juha''] (Some [1]) = Inr juha_model"
    by code_simp+
  from invalid_example_skipped [OF c bad, of "init 2" "[(''Juha'', 1)]" 5 "[]"] c bad tr
  show ?thesis by simp
qed

subsection \<open>C10: no boundary marker in a generated name\<close>

text \<open>
  Claim C10: for every trained model, a string that \<open>generate\<close> returns contains neither
  the start marker nor the end marker: the start marker is never a transition target,
  and a sampled end marker is never appended.
\<close>

theorem generated_name_has_no_markers:
  assumes "trained m" and "generate rand m mx mn p s i = Some (Inr r, m', i')"
  shows "no_start_target (chains m) \<and> CHR ''^'' \<notin> set r \<and> CHR ''$'' \<notin> set r"
proof -
  from assms(1) have "no_start_target (chains m)"
    by (auto dest: trained_ok simp: model_ok_def)
  with generate_no_markers [OF assms(2)] show ?thesis by simp
qed

theorem generated_name_has_no_markers_witness:
  "trained juha_model \<and>
   generate zero_source juha_model 12 2 ''Ju'' [] 0 = Some (Inr ''Juha'', juha_model, 3) \<and>
   no_start_target (chains juha_model) \<and> CHR ''^'' \<notin> set ''Juha'' \<and> CHR ''$'' \<notin> set ''Juha''"
  using generated_name_has_no_markers [OF juha_is_trained juha_run_prefix]
    juha_is_trained juha_run_prefix
  by simp

end
